theory Spec2Isabelle
  imports Main "HOL-Library.Word" "HOL-Library.Multiset"
begin

section \<open>Data model\<close>

text \<open>
  The quorum-set algebra of \<^verbatim>\<open>src/scp/LocalNode.cpp\<close>.

  \<^item> \<^verbatim>\<open>NodeID\<close> is opaque to the code (it is only compared with \<^verbatim>\<open>==\<close> and kept in
    ordered containers), so it is a type variable \<open>'n\<close>.
  \<^item> \<^verbatim>\<open>uint32\<close> and \<^verbatim>\<open>uint64\<close> are words; \<^verbatim>\<open>size_t\<close> is a 64-bit word wherever the code
    subtracts from it, and the size of a vector itself is the length of the list
    (a vector in memory has fewer than \<open>2 ^ 64\<close> elements).
  \<^item> \<^verbatim>\<open>SCPQuorumSet\<close> is the XDR struct \<^verbatim>\<open>{uint32 threshold; validators<>; innerSets<>}\<close>:
    a value tree, so a datatype with the three fields as selectors.
\<close>

type_synonym uint32 = "32 word"
type_synonym uint64 = "64 word"
type_synonym size_t = "64 word"

datatype 'n SCPQuorumSet =
  SCPQuorumSet (threshold: uint32) (validators: "'n list") (innerSets: "'n SCPQuorumSet list")

section \<open>Quorum slices\<close>

text \<open>
  \<^verbatim>\<open>isQuorumSliceInternal\<close>: \<^verbatim>\<open>uint32 thresholdLeft = qset.threshold\<close>, decremented for every
  validator found in \<^verbatim>\<open>nodeSet\<close> and every inner set that is itself a slice; \<^verbatim>\<open>return true\<close>
  as soon as it is \<^verbatim>\<open><= 0\<close>. The two loops are \<open>qsValidators\<close> and \<open>qsInnerSets\<close>; the
  validator loop returns \<open>None\<close> where the source returns true from inside the loop and
  the remaining counter otherwise. The decrement is that of an unsigned 32-bit value: it wraps.
\<close>

fun qsValidators :: "'n list \<Rightarrow> 'n list \<Rightarrow> uint32 \<Rightarrow> uint32 option" where
  "qsValidators [] nodeSet thresholdLeft = Some thresholdLeft"
| "qsValidators (validator # vs) nodeSet thresholdLeft =
     (if validator \<in> set nodeSet then
        (let thresholdLeft' = thresholdLeft - 1 in
         if thresholdLeft' \<le> 0 then None else qsValidators vs nodeSet thresholdLeft')
      else qsValidators vs nodeSet thresholdLeft)"

fun isQuorumSliceInternal :: "'n SCPQuorumSet \<Rightarrow> 'n list \<Rightarrow> bool"
  and qsInnerSets :: "'n SCPQuorumSet list \<Rightarrow> 'n list \<Rightarrow> uint32 \<Rightarrow> bool" where
  "isQuorumSliceInternal (SCPQuorumSet t v i) nodeSet =
     (case qsValidators v nodeSet t of
        None \<Rightarrow> True
      | Some thresholdLeft \<Rightarrow> qsInnerSets i nodeSet thresholdLeft)"
| "qsInnerSets [] nodeSet thresholdLeft = False"
| "qsInnerSets (inner # is) nodeSet thresholdLeft =
     (if isQuorumSliceInternal inner nodeSet then
        (let thresholdLeft' = thresholdLeft - 1 in
         if thresholdLeft' \<le> 0 then True else qsInnerSets is nodeSet thresholdLeft')
      else qsInnerSets is nodeSet thresholdLeft)"

definition isQuorumSlice :: "'n SCPQuorumSet \<Rightarrow> 'n list \<Rightarrow> bool" where
  "isQuorumSlice qSet nodeSet = isQuorumSliceInternal qSet nodeSet"

section \<open>V-blocking sets\<close>

text \<open>
  \<^verbatim>\<open>isVBlockingInternal\<close>: the counter is
  \<^verbatim>\<open>int leftTillBlock = (int)((1 + validators.size() + innerSets.size()) - threshold)\<close>.
  The subtraction is done in \<^verbatim>\<open>size_t\<close> (it wraps modulo \<open>2 ^ 64\<close>) and the conversion to
  the 32-bit \<^verbatim>\<open>int\<close> keeps the low 32 bits, read as two's complement: \<open>toInt\<close>.
  From there on the counter is only decremented and compared with 0; it is an \<open>int\<close> here,
  which is the C++ value at every point where the C++ decrement is defined (it leaves the
  range of \<^verbatim>\<open>int\<close> only when decremented at \<^verbatim>\<open>INT_MIN\<close>).
\<close>

definition leftTillBlockInit :: "'n list \<Rightarrow> 'n SCPQuorumSet list \<Rightarrow> uint32 \<Rightarrow> size_t" where
  "leftTillBlockInit v i t = (1 + of_nat (length v) + of_nat (length i)) - ucast t"

definition toInt :: "size_t \<Rightarrow> int" where
  "toInt x = sint (ucast x :: 32 word)"

fun vbValidators :: "'n list \<Rightarrow> 'n list \<Rightarrow> int \<Rightarrow> int option" where
  "vbValidators [] nodeSet leftTillBlock = Some leftTillBlock"
| "vbValidators (validator # vs) nodeSet leftTillBlock =
     (if validator \<in> set nodeSet then
        (let leftTillBlock' = leftTillBlock - 1 in
         if leftTillBlock' \<le> 0 then None else vbValidators vs nodeSet leftTillBlock')
      else vbValidators vs nodeSet leftTillBlock)"

fun isVBlockingInternal :: "'n SCPQuorumSet \<Rightarrow> 'n list \<Rightarrow> bool"
  and vbInnerSets :: "'n SCPQuorumSet list \<Rightarrow> 'n list \<Rightarrow> int \<Rightarrow> bool" where
  "isVBlockingInternal (SCPQuorumSet t v i) nodeSet =
     (if t = 0 then False
      else (case vbValidators v nodeSet (toInt (leftTillBlockInit v i t)) of
              None \<Rightarrow> True
            | Some leftTillBlock \<Rightarrow> vbInnerSets i nodeSet leftTillBlock))"
| "vbInnerSets [] nodeSet leftTillBlock = False"
| "vbInnerSets (inner # is) nodeSet leftTillBlock =
     (if isVBlockingInternal inner nodeSet then
        (let leftTillBlock' = leftTillBlock - 1 in
         if leftTillBlock' \<le> 0 then True else vbInnerSets is nodeSet leftTillBlock')
      else vbInnerSets is nodeSet leftTillBlock)"

definition isVBlocking :: "'n SCPQuorumSet \<Rightarrow> 'n list \<Rightarrow> bool" where
  "isVBlocking qSet nodeSet = isVBlockingInternal qSet nodeSet"

section \<open>The local node\<close>

text \<open>
  The fields of \<^verbatim>\<open>LocalNode\<close>. The secret key, the hash and the \<^verbatim>\<open>SCP*\<close> back pointer are
  opaque here (\<open>'k\<close>, \<open>'h\<close>, \<open>'p\<close>). \<^verbatim>\<open>sha256(xdr::xdr_to_opaque(q))\<close> is a parameter
  \<open>hashQSet\<close> of the operations that compute it, and \<^verbatim>\<open>secretKey.getPublicKey()\<close> a
  parameter \<open>getPublicKey\<close> of the constructor.
\<close>

record ('n, 'k, 'h, 'p) LocalNode =
  mNodeID :: 'n
  mSecretKey :: 'k
  mIsValidator :: bool
  mQSet :: "'n SCPQuorumSet"
  mQSetHash :: 'h
  mSingleQSet :: "'n SCPQuorumSet"
  mSCP :: 'p

definition buildSingletonQSet :: "'n \<Rightarrow> 'n SCPQuorumSet" where
  "buildSingletonQSet nodeID = SCPQuorumSet 1 [nodeID] []"

section \<open>Sanity check\<close>

text \<open>
  \<^verbatim>\<open>isQuorumSetSaneInternal\<close> threads \<^verbatim>\<open>std::set<NodeID>& knownNodes\<close> through the recursion:
  the model returns the flag together with the set as the call leaves it.
  \<^verbatim>\<open>knownNodes.insert(n)\<close> fails (\<^verbatim>\<open>!r.second\<close>) when \<open>n\<close> is already a member.
\<close>

fun insertValidators :: "'n list \<Rightarrow> 'n set \<Rightarrow> bool \<times> 'n set" where
  "insertValidators [] knownNodes = (True, knownNodes)"
| "insertValidators (n # ns) knownNodes =
     (if n \<in> knownNodes then (False, knownNodes)
      else insertValidators ns (insert n knownNodes))"

fun isQuorumSetSaneInternal :: "'n \<Rightarrow> 'n SCPQuorumSet \<Rightarrow> 'n set \<Rightarrow> bool \<times> 'n set"
  and saneInnerSets :: "'n \<Rightarrow> 'n SCPQuorumSet list \<Rightarrow> 'n set \<Rightarrow> bool \<times> 'n set" where
  "isQuorumSetSaneInternal nodeID (SCPQuorumSet t v i) knownNodes =
     (let totEntries = length v + length i in
      if t \<ge> 1 \<and> unat t \<le> totEntries then
        (let (ok, knownNodes') = insertValidators v knownNodes in
         if \<not> ok then (False, knownNodes')
         else saneInnerSets nodeID i knownNodes')
      else (False, knownNodes))"
| "saneInnerSets nodeID [] knownNodes = (True, knownNodes)"
| "saneInnerSets nodeID (iSet # is) knownNodes =
     (let (ok, knownNodes') = isQuorumSetSaneInternal nodeID iSet knownNodes in
      if \<not> ok then (False, knownNodes')
      else saneInnerSets nodeID is knownNodes')"

definition isQuorumSetSane ::
  "('n, 'k, 'h, 'p) LocalNode \<Rightarrow> 'n \<Rightarrow> 'n SCPQuorumSet \<Rightarrow> bool" where
  "isQuorumSetSane ln nodeID qSet =
     (let (wellFormed, allValidators) = isQuorumSetSaneInternal nodeID qSet {} in
      wellFormed \<and> (nodeID \<in> allValidators \<or> (\<not> mIsValidator ln \<and> nodeID = mNodeID ln)))"

section \<open>Canonicalisation\<close>

text \<open>
  \<^verbatim>\<open>adjustQSetHelper\<close> edits the quorum set in place; the model returns the edited value.
  Its first loop (\<open>adjustInnerSets\<close>) rewrites each inner set and erases those whose
  threshold became 0, its second (\<open>removeSelf\<close>) erases the node's own ID from the
  validators; both decrement the threshold of the enclosing set unless it is already 0.
  \<open>self\<close> is the member \<^verbatim>\<open>mNodeID\<close>.
\<close>

fun removeSelf :: "'n \<Rightarrow> 'n list \<Rightarrow> uint32 \<Rightarrow> 'n list \<times> uint32" where
  "removeSelf self [] t = ([], t)"
| "removeSelf self (x # v) t =
     (if x = self then removeSelf self v (if t \<noteq> 0 then t - 1 else t)
      else (let (v', t') = removeSelf self v t in (x # v', t')))"

fun adjustQSetHelper :: "'n \<Rightarrow> 'n SCPQuorumSet \<Rightarrow> 'n SCPQuorumSet"
  and adjustInnerSets ::
    "'n \<Rightarrow> 'n SCPQuorumSet list \<Rightarrow> uint32 \<Rightarrow> 'n SCPQuorumSet list \<times> uint32" where
  "adjustQSetHelper self (SCPQuorumSet t v i) =
     (let (i', t1) = adjustInnerSets self i t;
          (v', t2) = removeSelf self v t1
      in if t2 = 1 \<and> length v' = 0 \<and> length i' = 1 then last i'
         else SCPQuorumSet t2 v' i')"
| "adjustInnerSets self [] t = ([], t)"
| "adjustInnerSets self (q # qs) t =
     (let q' = adjustQSetHelper self q in
      if threshold q' = 0 then adjustInnerSets self qs (if t \<noteq> 0 then t - 1 else t)
      else (let (qs', t') = adjustInnerSets self qs t in (q' # qs', t')))"

definition adjustQSet :: "'n \<Rightarrow> 'n SCPQuorumSet \<Rightarrow> 'n SCPQuorumSet" where
  "adjustQSet self qSet =
     (let aQSet = adjustQSetHelper self qSet in
      if threshold aQSet \<noteq> 0 then SCPQuorumSet (1 + 1) [self] [aQSet]
      else SCPQuorumSet 1 [self] [])"

text \<open>
  The constructor. It also assigns the static \<^verbatim>\<open>gSingleQSetHash\<close>, returned here as the
  second component.
\<close>

definition newLocalNode ::
  "('k \<Rightarrow> 'n) \<Rightarrow> ('n SCPQuorumSet \<Rightarrow> 'h) \<Rightarrow> 'k \<Rightarrow> bool \<Rightarrow> 'n SCPQuorumSet \<Rightarrow> 'p
     \<Rightarrow> ('n, 'k, 'h, 'p) LocalNode \<times> 'h" where
  "newLocalNode getPublicKey hashQSet secretKey isValidator qSet scp =
     (let nodeID = getPublicKey secretKey;
          q = adjustQSet nodeID qSet;
          single = buildSingletonQSet nodeID
      in (\<lparr>mNodeID = nodeID, mSecretKey = secretKey, mIsValidator = isValidator,
            mQSet = q, mQSetHash = hashQSet q, mSingleQSet = single, mSCP = scp\<rparr>,
          hashQSet single))"

definition updateQuorumSet ::
  "('n SCPQuorumSet \<Rightarrow> 'h) \<Rightarrow> ('n, 'k, 'h, 'p) LocalNode \<Rightarrow> 'n SCPQuorumSet
     \<Rightarrow> ('n, 'k, 'h, 'p) LocalNode" where
  "updateQuorumSet hashQSet ln qSet = ln\<lparr>mQSetHash := hashQSet qSet, mQSet := qSet\<rparr>"

definition getQuorumSet :: "('n, 'k, 'h, 'p) LocalNode \<Rightarrow> 'n SCPQuorumSet" where
  "getQuorumSet ln = mQSet ln"

definition getQuorumSetHash :: "('n, 'k, 'h, 'p) LocalNode \<Rightarrow> 'h" where
  "getQuorumSetHash ln = mQSetHash ln"

definition getSecretKey :: "('n, 'k, 'h, 'p) LocalNode \<Rightarrow> 'k" where
  "getSecretKey ln = mSecretKey ln"

definition getNodeID :: "('n, 'k, 'h, 'p) LocalNode \<Rightarrow> 'n" where
  "getNodeID ln = mNodeID ln"

definition isValidator :: "('n, 'k, 'h, 'p) LocalNode \<Rightarrow> bool" where
  "isValidator ln = mIsValidator ln"

section \<open>Node weight\<close>

text \<open>
  Modelled from the spec: \<^verbatim>\<open>bigDivide(result, A, B, C)\<close> is declared in \<^verbatim>\<open>util/types.h\<close>,
  which is not among the sources. The spec describes it as the "wide multiply-divide"
  utility: \<open>A * B / C\<close> with a double-width intermediate, the quotient stored in the
  64-bit result.
\<close>

definition bigDivide :: "uint64 \<Rightarrow> uint64 \<Rightarrow> uint64 \<Rightarrow> uint64" where
  "bigDivide A B C = word_of_int ((uint A * uint B) div uint C)"

definition UINT64_MAX :: uint64 where
  "UINT64_MAX = - 1"

text \<open>
  \<^verbatim>\<open>getNodeWeight\<close>: the first loop returns the same quotient at whichever validator equals
  \<open>nodeID\<close>, so it is a membership test; the second loop is \<open>weightInnerSets\<close>.
\<close>

fun getNodeWeight :: "'n \<Rightarrow> 'n SCPQuorumSet \<Rightarrow> uint64"
  and weightInnerSets :: "'n \<Rightarrow> 'n SCPQuorumSet list \<Rightarrow> uint64 \<Rightarrow> uint64 \<Rightarrow> uint64" where
  "getNodeWeight nodeID (SCPQuorumSet t v i) =
     (let n = ucast t;
          d = of_nat (length i) + of_nat (length v)
      in if nodeID \<in> set v then bigDivide UINT64_MAX n d
         else weightInnerSets nodeID i n d)"
| "weightInnerSets nodeID [] n d = 0"
| "weightInnerSets nodeID (q # qs) n d =
     (let leafW = getNodeWeight nodeID q in
      if leafW \<noteq> 0 then bigDivide leafW n d
      else weightInnerSets nodeID qs n d)"

section \<open>Federated quorum detection\<close>

text \<open>
  \<^verbatim>\<open>std::map<NodeID, SCPEnvelope>\<close> is the list of its entries in iteration order (ascending
  keys, each key once); \<^verbatim>\<open>map.find(nodeID)->second\<close> is \<open>map_of\<close>. Of an envelope the code
  reads only the field \<^verbatim>\<open>statement\<close>, whose type \<open>'s\<close> is opaque. \<^verbatim>\<open>qfun\<close> returns a shared
  pointer that the code dereferences without a test, so it is a function to quorum sets.
\<close>

record 's SCPEnvelope =
  statement :: 's

definition relevantNodes ::
  "('n \<times> ('s, 'z) SCPEnvelope_scheme) list \<Rightarrow> ('s \<Rightarrow> bool) \<Rightarrow> 'n list" where
  "relevantNodes m flt = map fst (filter (\<lambda>it. flt (statement (snd it))) m)"

text \<open>
  The lambda \<^verbatim>\<open>quorumFilter\<close> of \<^verbatim>\<open>isQuorum\<close>. Every node of \<^verbatim>\<open>pNodes\<close> is a key of the map
  (the nodes were taken from it), so \<^verbatim>\<open>find\<close> does not return \<^verbatim>\<open>end()\<close>.
\<close>

definition quorumFilter ::
  "('n \<times> ('s, 'z) SCPEnvelope_scheme) list \<Rightarrow> ('s \<Rightarrow> 'n SCPQuorumSet) \<Rightarrow> 'n list \<Rightarrow> 'n
     \<Rightarrow> bool" where
  "quorumFilter m qfun pNodes nodeID =
     isQuorumSlice (qfun (statement (the (map_of m nodeID)))) pNodes"

text \<open>
  The \<^verbatim>\<open>do { ... } while (count != pNodes.size())\<close> loop: one round copies the nodes that
  pass \<^verbatim>\<open>quorumFilter\<close> and goes on when the size changed. \<open>quorumLoop\<close> is the value of
  \<^verbatim>\<open>pNodes\<close> when the loop is left, \<open>quorumRounds\<close> the number of times its body ran.
\<close>

function quorumLoop ::
  "('n \<times> ('s, 'z) SCPEnvelope_scheme) list \<Rightarrow> ('s \<Rightarrow> 'n SCPQuorumSet) \<Rightarrow> 'n list
     \<Rightarrow> 'n list" where
  "quorumLoop m qfun pNodes =
     (let count = length pNodes;
          fNodes = filter (quorumFilter m qfun pNodes) pNodes
      in if count \<noteq> length fNodes then quorumLoop m qfun fNodes else fNodes)"
  by pat_completeness auto
termination
proof (relation "measure (\<lambda>(m, qfun, pNodes). length pNodes)")
  show "wf (measure (\<lambda>(m, qfun, pNodes). length pNodes))"
    by simp
next
  fix m :: "('n \<times> ('s, 'z) SCPEnvelope_scheme) list"
    and qfun :: "'s \<Rightarrow> 'n SCPQuorumSet" and pNodes :: "'n list" and x xa
  assume xa: "xa = filter (quorumFilter m qfun pNodes) pNodes"
    and x: "x \<noteq> length xa" "x = length pNodes"
  have "length xa \<le> length pNodes"
    unfolding xa by (rule length_filter_le)
  with x have "length xa < length pNodes"
    by linarith
  then show "((m, qfun, xa), m, qfun, pNodes)
      \<in> measure (\<lambda>(m, qfun, pNodes). length pNodes)"
    by simp
qed

function quorumRounds ::
  "('n \<times> ('s, 'z) SCPEnvelope_scheme) list \<Rightarrow> ('s \<Rightarrow> 'n SCPQuorumSet) \<Rightarrow> 'n list
     \<Rightarrow> nat" where
  "quorumRounds m qfun pNodes =
     (let count = length pNodes;
          fNodes = filter (quorumFilter m qfun pNodes) pNodes
      in if count \<noteq> length fNodes then 1 + quorumRounds m qfun fNodes else 1)"
  by pat_completeness auto
termination
proof (relation "measure (\<lambda>(m, qfun, pNodes). length pNodes)")
  show "wf (measure (\<lambda>(m, qfun, pNodes). length pNodes))"
    by simp
next
  fix m :: "('n \<times> ('s, 'z) SCPEnvelope_scheme) list"
    and qfun :: "'s \<Rightarrow> 'n SCPQuorumSet" and pNodes :: "'n list" and x xa
  assume xa: "xa = filter (quorumFilter m qfun pNodes) pNodes"
    and x: "x \<noteq> length xa" "x = length pNodes"
  have "length xa \<le> length pNodes"
    unfolding xa by (rule length_filter_le)
  with x have "length xa < length pNodes"
    by linarith
  then show "((m, qfun, xa), m, qfun, pNodes)
      \<in> measure (\<lambda>(m, qfun, pNodes). length pNodes)"
    by simp
qed

text \<open>The two equations unfold themselves, so they are applied by hand.\<close>

declare quorumLoop.simps [simp del] quorumRounds.simps [simp del]

definition isQuorum ::
  "'n SCPQuorumSet \<Rightarrow> ('n \<times> ('s, 'z) SCPEnvelope_scheme) list \<Rightarrow> ('s \<Rightarrow> 'n SCPQuorumSet)
     \<Rightarrow> ('s \<Rightarrow> bool) \<Rightarrow> bool" where
  "isQuorum qSet m qfun flt = isQuorumSlice qSet (quorumLoop m qfun (relevantNodes m flt))"

section \<open>Closest v-blocking set\<close>

text \<open>
  \<^verbatim>\<open>findClosestVBlocking(qset, nodes)\<close>. \<^verbatim>\<open>size_t leftTillBlock\<close> is a 64-bit word and wraps.
  The loops return \<open>None\<close> where the source returns the empty vector from inside the loop.
  \<^verbatim>\<open>resInternals\<close> is a \<^verbatim>\<open>std::multiset\<close> ordered by vector size: it is kept as the list of
  its elements in iteration order, and \<^verbatim>\<open>emplace\<close> puts a new element after the
  elements that are not larger (\<open>insertBySize\<close>).
\<close>

fun fcvValidators ::
  "'n list \<Rightarrow> 'n set \<Rightarrow> size_t \<Rightarrow> 'n list \<Rightarrow> (size_t \<times> 'n list) option" where
  "fcvValidators [] nodes leftTillBlock res = Some (leftTillBlock, res)"
| "fcvValidators (validator # vs) nodes leftTillBlock res =
     (if validator \<notin> nodes then
        (let leftTillBlock' = leftTillBlock - 1 in
         if leftTillBlock' = 0 then None else fcvValidators vs nodes leftTillBlock' res)
      else fcvValidators vs nodes leftTillBlock (res @ [validator]))"

fun insertBySize :: "'n list \<Rightarrow> 'n list list \<Rightarrow> 'n list list" where
  "insertBySize v [] = [v]"
| "insertBySize v (w # ws) =
     (if length v < length w then v # w # ws else w # insertBySize v ws)"

fun useInternals :: "'n list list \<Rightarrow> size_t \<Rightarrow> 'n list \<Rightarrow> 'n list" where
  "useInternals [] leftTillBlock res = res"
| "useInternals (w # ws) leftTillBlock res =
     (if leftTillBlock \<noteq> 0 then useInternals ws (leftTillBlock - 1) (res @ w) else res)"

fun findClosestVBlocking :: "'n SCPQuorumSet \<Rightarrow> 'n set \<Rightarrow> 'n list"
  and fcvInnerSets ::
    "'n SCPQuorumSet list \<Rightarrow> 'n set \<Rightarrow> size_t \<Rightarrow> 'n list list
       \<Rightarrow> (size_t \<times> 'n list list) option" where
  "findClosestVBlocking (SCPQuorumSet t v i) nodes =
     (case fcvValidators v nodes (leftTillBlockInit v i t) [] of
        None \<Rightarrow> []
      | Some (left1, res) \<Rightarrow>
          (case fcvInnerSets i nodes left1 [] of
             None \<Rightarrow> []
           | Some (left2, resInternals) \<Rightarrow>
               (let res' = (if length res > unat left2 then take (unat left2) res else res);
                    left3 = left2 - of_nat (length res')
                in useInternals resInternals left3 res')))"
| "fcvInnerSets [] nodes leftTillBlock resInternals = Some (leftTillBlock, resInternals)"
| "fcvInnerSets (inner # is) nodes leftTillBlock resInternals =
     (let v = findClosestVBlocking inner nodes in
      if length v = 0 then
        (let leftTillBlock' = leftTillBlock - 1 in
         if leftTillBlock' = 0 then None
         else fcvInnerSets is nodes leftTillBlock' resInternals)
      else fcvInnerSets is nodes leftTillBlock (insertBySize v resInternals))"

text \<open>The overloads that first reduce a statement map to the nodes passing the filter.\<close>

definition isVBlockingMap ::
  "'n SCPQuorumSet \<Rightarrow> ('n \<times> ('s, 'z) SCPEnvelope_scheme) list \<Rightarrow> ('s \<Rightarrow> bool) \<Rightarrow> bool" where
  "isVBlockingMap qSet m flt = isVBlocking qSet (relevantNodes m flt)"

definition findClosestVBlockingMap ::
  "'n SCPQuorumSet \<Rightarrow> ('n \<times> ('s, 'z) SCPEnvelope_scheme) list \<Rightarrow> ('s \<Rightarrow> bool) \<Rightarrow> 'n list" where
  "findClosestVBlockingMap qset m flt = findClosestVBlocking qset (set (relevantNodes m flt))"

section \<open>Properties of quorum sets used in the statements\<close>

text \<open>All validators of a tree, in the order the traversals meet them.\<close>

fun allValidators :: "'n SCPQuorumSet \<Rightarrow> 'n list" where
  "allValidators (SCPQuorumSet t v i) = v @ concat (map allValidators i)"

text \<open>Every threshold of the tree is at least 1.\<close>

fun thresholdsPositive :: "'n SCPQuorumSet \<Rightarrow> bool" where
  "thresholdsPositive (SCPQuorumSet t v i) = (1 \<le> unat t \<and> list_all thresholdsPositive i)"

text \<open>Every threshold of the tree lies between 1 and the number of direct entries.\<close>

fun thresholdsInRange :: "'n SCPQuorumSet \<Rightarrow> bool" where
  "thresholdsInRange (SCPQuorumSet t v i) =
     (1 \<le> unat t \<and> unat t \<le> length v + length i \<and> list_all thresholdsInRange i)"

text \<open>
  Well-formed, as the data model defines it: thresholds in range, and no NodeID twice
  anywhere in the tree.
\<close>

definition wellFormed :: "'n SCPQuorumSet \<Rightarrow> bool" where
  "wellFormed q = (thresholdsInRange q \<and> distinct (allValidators q))"

text \<open>
  The number of direct entries of every set of the tree is a value of the 32-bit \<^verbatim>\<open>int\<close>
  in which \<^verbatim>\<open>isVBlockingInternal\<close> counts.
\<close>

fun entriesFitInt :: "'n SCPQuorumSet \<Rightarrow> bool" where
  "entriesFitInt (SCPQuorumSet t v i) =
     (length v + length i < 2 ^ 31 \<and> list_all entriesFitInt i)"

text \<open>
  The spec's meaning of a quorum set: it is satisfied by \<open>S\<close> when at least \<open>threshold\<close> of
  its direct entries are, a validator when it is a member of \<open>S\<close>, an inner set when it
  is satisfied by \<open>S\<close> in turn.
\<close>

fun satisfied :: "'n SCPQuorumSet \<Rightarrow> 'n list \<Rightarrow> bool" where
  "satisfied (SCPQuorumSet t v i) S =
     (unat t \<le> length (filter (\<lambda>n. n \<in> set S) v) + length (filter (\<lambda>q. satisfied q S) i))"

text \<open>
  The dual count: \<open>S\<close> blocks a set when so many of its direct entries are blocked
  (a validator in \<open>S\<close>, an inner set blocked by \<open>S\<close>) that fewer than \<open>threshold\<close> remain.
\<close>

fun blocked :: "'n SCPQuorumSet \<Rightarrow> 'n list \<Rightarrow> bool" where
  "blocked (SCPQuorumSet t v i) S =
     (1 + length v + length i
        \<le> unat t + length (filter (\<lambda>n. n \<in> set S) v) + length (filter (\<lambda>q. blocked q S) i))"

text \<open>
  The shape \<open>adjustQSetHelper\<close> produces: the node's own ID is nowhere among the
  validators, no inner set has threshold 0, and no set is a threshold-1 wrapper around a
  single inner set.
\<close>

fun normalised :: "'n \<Rightarrow> 'n SCPQuorumSet \<Rightarrow> bool" where
  "normalised self (SCPQuorumSet t v i) =
     (self \<notin> set v \<and> list_all (\<lambda>q. normalised self q \<and> threshold q \<noteq> 0) i
      \<and> \<not> (t = 1 \<and> v = [] \<and> length i = 1))"

section \<open>Quorum slices count satisfied entries\<close>

text \<open>
  With a threshold other than 0 the unsigned counter reaches 0 exactly when as many
  entries were found as the threshold asks for.
\<close>

lemma qsValidators_count:
  "left \<noteq> 0 \<Longrightarrow>
   (case qsValidators vs S left of
      None \<Rightarrow> unat left \<le> length (filter (\<lambda>n. n \<in> set S) vs)
    | Some l \<Rightarrow> length (filter (\<lambda>n. n \<in> set S) vs) < unat left
        \<and> l \<noteq> 0 \<and> unat l = unat left - length (filter (\<lambda>n. n \<in> set S) vs))"
proof (induction vs arbitrary: left)
  case Nil
  then show ?case by (simp add: unat_gt_0)
next
  case (Cons a vs)
  show ?case
  proof (cases "a \<in> set S")
    case False
    with Cons.IH [OF Cons.prems] show ?thesis by (simp split: option.splits)
  next
    case True
    note hit = this
    show ?thesis
    proof (cases "left - 1 = 0")
      case True
      then have "left = 1" by simp
      with hit show ?thesis by simp
    next
      case False
      have u: "unat (left - 1) = unat left - 1"
        using Cons.prems by (simp add: unat_minus_one)
      have pos: "0 < unat left"
        using Cons.prems by (simp add: unat_gt_0)
      from Cons.IH [OF False] hit False u pos show ?thesis
        by (auto split: option.splits)
    qed
  qed
qed

lemma qsInnerSets_count:
  "left \<noteq> 0 \<Longrightarrow>
   qsInnerSets qs S left = (unat left \<le> length (filter (\<lambda>q. isQuorumSliceInternal q S) qs))"
proof (induction qs arbitrary: left)
  case Nil
  then show ?case by (simp add: unat_gt_0)
next
  case (Cons q qs)
  show ?case
  proof (cases "isQuorumSliceInternal q S")
    case False
    with Cons.IH [OF Cons.prems] show ?thesis by simp
  next
    case True
    note hit = this
    show ?thesis
    proof (cases "left - 1 = 0")
      case True
      then have "left = 1" by simp
      with hit show ?thesis by simp
    next
      case False
      have u: "unat (left - 1) = unat left - 1"
        using Cons.prems by (simp add: unat_minus_one)
      have pos: "0 < unat left"
        using Cons.prems by (simp add: unat_gt_0)
      from Cons.IH [OF False] hit False u pos show ?thesis
        by auto
    qed
  qed
qed

lemma isQuorumSliceInternal_count:
  assumes "t \<noteq> 0"
  shows "isQuorumSliceInternal (SCPQuorumSet t v i) S =
     (unat t \<le> length (filter (\<lambda>n. n \<in> set S) v)
        + length (filter (\<lambda>q. isQuorumSliceInternal q S) i))"
proof (cases "qsValidators v S t")
  case None
  with qsValidators_count [OF assms, where vs = v and S = S] show ?thesis by simp
next
  case (Some l)
  with qsValidators_count [OF assms, where vs = v and S = S]
  have l: "length (filter (\<lambda>n. n \<in> set S) v) < unat t" "l \<noteq> 0"
    "unat l = unat t - length (filter (\<lambda>n. n \<in> set S) v)"
    by simp_all
  from Some l qsInnerSets_count [OF l(2), where qs = i and S = S] show ?thesis
    by auto
qed

lemma isQuorumSliceInternal_satisfied:
  "thresholdsPositive q \<Longrightarrow> isQuorumSliceInternal q S = satisfied q S"
proof (induction q)
  case (SCPQuorumSet t v i)
  have t: "t \<noteq> 0"
    using SCPQuorumSet.prems by auto
  have "filter (\<lambda>q. isQuorumSliceInternal q S) i = filter (\<lambda>q. satisfied q S) i"
    using SCPQuorumSet by (intro filter_cong) (auto simp: list_all_iff)
  then show ?case
    by (simp only: isQuorumSliceInternal_count [OF t] satisfied.simps)
qed

text \<open>
  Claim C2. When every threshold of the tree is at least 1, \<open>isQuorumSlice\<close> holds exactly
  when at least \<open>threshold\<close> of the direct entries are satisfied, a validator by being a
  member of the node set and an inner set by being satisfied in turn. For
  \<open>{threshold = 2, validators = [A, B, C], innerSets = []}\<close> with distinct nodes, \<open>{A, B}\<close>
  is a slice and neither \<open>{A}\<close> nor the empty set is.
\<close>

theorem isQuorumSlice_threshold_exact:
  "(thresholdsPositive (Q :: 'n SCPQuorumSet) \<longrightarrow> isQuorumSlice Q S = satisfied Q S) \<and>
   (distinct [A, B, C :: 'n] \<longrightarrow>
      isQuorumSlice (SCPQuorumSet 2 [A, B, C] []) [A, B] \<and>
      \<not> isQuorumSlice (SCPQuorumSet 2 [A, B, C] []) [A] \<and>
      \<not> isQuorumSlice (SCPQuorumSet 2 [A, B, C] []) [])"
proof (intro conjI impI)
  assume "thresholdsPositive Q"
  then show "isQuorumSlice Q S = satisfied Q S"
    unfolding isQuorumSlice_def by (rule isQuorumSliceInternal_satisfied)
next
  assume "distinct [A, B, C]"
  then show "isQuorumSlice (SCPQuorumSet 2 [A, B, C] []) [A, B]"
    by (simp add: isQuorumSlice_def)
next
  assume "distinct [A, B, C]"
  then show "\<not> isQuorumSlice (SCPQuorumSet 2 [A, B, C] []) [A]"
    by (auto simp add: isQuorumSlice_def)
next
  assume "distinct [A, B, C]"
  then show "\<not> isQuorumSlice (SCPQuorumSet 2 [A, B, C] []) []"
    by (simp add: isQuorumSlice_def)
qed

theorem isQuorumSlice_threshold_exact_witness:
  "thresholdsPositive (SCPQuorumSet 2 [1, 2, 3 :: nat] [SCPQuorumSet 1 [4, 5] []]) \<and>
   isQuorumSlice (SCPQuorumSet 2 [1, 2, 3 :: nat] [SCPQuorumSet 1 [4, 5] []]) [1, 4] \<and>
   satisfied (SCPQuorumSet 2 [1, 2, 3 :: nat] [SCPQuorumSet 1 [4, 5] []]) [1, 4] \<and>
   distinct [1, 2, 3 :: nat] \<and>
   isQuorumSlice (SCPQuorumSet 2 [1, 2, 3 :: nat] []) [1, 2] \<and>
   \<not> isQuorumSlice (SCPQuorumSet 2 [1, 2, 3 :: nat] []) [1] \<and>
   \<not> isQuorumSlice (SCPQuorumSet 2 [1, 2, 3 :: nat] []) []"
  using isQuorumSlice_threshold_exact
    [of "SCPQuorumSet 2 [1, 2, 3 :: nat] [SCPQuorumSet 1 [4, 5] []]" "[1, 4]" 1 2 3]
  by simp

section \<open>What the sanity check accepts\<close>

text \<open>
  The recursive check succeeds exactly on the trees whose thresholds are in range and
  whose validators are pairwise distinct and new to \<open>knownNodes\<close>; on success it has added
  all of them to the set.
\<close>

lemma insertValidators_iff:
  "fst (insertValidators ns K) = (distinct ns \<and> set ns \<inter> K = {})"
  by (induction ns arbitrary: K) auto

lemma insertValidators_known:
  "fst (insertValidators ns K) \<Longrightarrow> snd (insertValidators ns K) = K \<union> set ns"
  by (induction ns arbitrary: K) (auto split: if_splits)

lemma saneInnerSets_spec:
  assumes "\<And>q K. q \<in> set qs \<Longrightarrow>
      fst (isQuorumSetSaneInternal nodeID q K)
        = (thresholdsInRange q \<and> distinct (allValidators q) \<and> set (allValidators q) \<inter> K = {})
      \<and> (fst (isQuorumSetSaneInternal nodeID q K) \<longrightarrow>
           snd (isQuorumSetSaneInternal nodeID q K) = K \<union> set (allValidators q))"
  shows "fst (saneInnerSets nodeID qs K)
        = (list_all thresholdsInRange qs \<and> distinct (concat (map allValidators qs))
            \<and> set (concat (map allValidators qs)) \<inter> K = {})
      \<and> (fst (saneInnerSets nodeID qs K) \<longrightarrow>
           snd (saneInnerSets nodeID qs K) = K \<union> set (concat (map allValidators qs)))"
  using assms
proof (induction qs arbitrary: K)
  case Nil
  show ?case by simp
next
  case (Cons q qs)
  have hd: "fst (isQuorumSetSaneInternal nodeID q K)
        = (thresholdsInRange q \<and> distinct (allValidators q) \<and> set (allValidators q) \<inter> K = {})"
    and hd_known: "fst (isQuorumSetSaneInternal nodeID q K) \<Longrightarrow>
           snd (isQuorumSetSaneInternal nodeID q K) = K \<union> set (allValidators q)"
    using Cons.prems [of q K] by simp_all
  show ?case
  proof (cases "fst (isQuorumSetSaneInternal nodeID q K)")
    case False
    with hd show ?thesis
      by (auto simp: case_prod_beta)
  next
    case True
    let ?K = "K \<union> set (allValidators q)"
    have tl: "fst (saneInnerSets nodeID qs ?K)
        = (list_all thresholdsInRange qs \<and> distinct (concat (map allValidators qs))
            \<and> set (concat (map allValidators qs)) \<inter> ?K = {})
      \<and> (fst (saneInnerSets nodeID qs ?K) \<longrightarrow>
           snd (saneInnerSets nodeID qs ?K) = ?K \<union> set (concat (map allValidators qs)))"
      by (rule Cons.IH) (use Cons.prems in simp)
    have step: "saneInnerSets nodeID (q # qs) K = saneInnerSets nodeID qs ?K"
      using True hd_known [OF True] by (simp add: case_prod_beta)
    from True hd have q: "thresholdsInRange q" "distinct (allValidators q)"
      "set (allValidators q) \<inter> K = {}"
      by simp_all
    show ?thesis
      unfolding step using tl q by auto
  qed
qed

lemma isQuorumSetSaneInternal_spec:
  "fst (isQuorumSetSaneInternal nodeID q K)
        = (thresholdsInRange q \<and> distinct (allValidators q) \<and> set (allValidators q) \<inter> K = {})
      \<and> (fst (isQuorumSetSaneInternal nodeID q K) \<longrightarrow>
           snd (isQuorumSetSaneInternal nodeID q K) = K \<union> set (allValidators q))"
proof (induction q arbitrary: K)
  case (SCPQuorumSet t v i)
  have range: "(1 \<le> t \<and> unat t \<le> length v + length i)
      = (1 \<le> unat t \<and> unat t \<le> length v + length i)"
    by (simp add: word_le_nat_alt)
  show ?case
  proof (cases "1 \<le> t \<and> unat t \<le> length v + length i")
    case False
    then show ?thesis
      using range by auto
  next
    case True
    note inrange = this
    show ?thesis
    proof (cases "fst (insertValidators v K)")
      case False
      then show ?thesis
        using inrange insertValidators_iff [of v K] by (auto simp: case_prod_beta)
    next
      case True
      let ?K = "K \<union> set v"
      have known: "snd (insertValidators v K) = ?K"
        using True by (rule insertValidators_known)
      have inner: "fst (saneInnerSets nodeID i ?K)
        = (list_all thresholdsInRange i \<and> distinct (concat (map allValidators i))
            \<and> set (concat (map allValidators i)) \<inter> ?K = {})
      \<and> (fst (saneInnerSets nodeID i ?K) \<longrightarrow>
           snd (saneInnerSets nodeID i ?K) = ?K \<union> set (concat (map allValidators i)))"
        by (rule saneInnerSets_spec) (rule SCPQuorumSet.IH)
      have step: "isQuorumSetSaneInternal nodeID (SCPQuorumSet t v i) K
          = saneInnerSets nodeID i ?K"
        using inrange True known by (simp add: case_prod_beta)
      from True have v: "distinct v" "set v \<inter> K = {}"
        by (simp_all add: insertValidators_iff)
      show ?thesis
        unfolding step using inner v inrange range by auto
    qed
  qed
qed

lemma isQuorumSetSane_iff:
  "isQuorumSetSane ln nodeID q =
     (wellFormed q \<and>
      (nodeID \<in> set (allValidators q) \<or> (\<not> mIsValidator ln \<and> nodeID = mNodeID ln)))"
  using isQuorumSetSaneInternal_spec [of nodeID q "{}"]
  by (auto simp: isQuorumSetSane_def wellFormed_def case_prod_beta)

text \<open>
  Claim C5. A quorum set in which some set of the tree has threshold 0 or a threshold
  above its number of direct entries, or in which a NodeID is a validator at two positions
  of the tree, is not sane.
\<close>

theorem isQuorumSetSane_rejects_malformed:
  assumes "\<not> thresholdsInRange q \<or> \<not> distinct (allValidators q)"
  shows "\<not> isQuorumSetSane ln nodeID q"
proof
  assume "isQuorumSetSane ln nodeID q"
  then have "wellFormed q"
    by (simp add: isQuorumSetSane_iff)
  then have "thresholdsInRange q" and "distinct (allValidators q)"
    by (simp_all add: wellFormed_def)
  with assms show False
    by blast
qed

theorem isQuorumSetSane_rejects_malformed_witness:
  "\<not> thresholdsInRange (SCPQuorumSet 1 [1 :: nat] [SCPQuorumSet 0 [2] []]) \<and>
   \<not> isQuorumSetSane
       \<lparr>mNodeID = 1 :: nat, mSecretKey = (), mIsValidator = True,
        mQSet = SCPQuorumSet 1 [1] [], mQSetHash = (), mSingleQSet = SCPQuorumSet 1 [1] [],
        mSCP = ()\<rparr>
       1 (SCPQuorumSet 1 [1 :: nat] [SCPQuorumSet 0 [2] []]) \<and>
   \<not> thresholdsInRange (SCPQuorumSet 3 [1 :: nat, 2] []) \<and>
   \<not> isQuorumSetSane
       \<lparr>mNodeID = 1 :: nat, mSecretKey = (), mIsValidator = True,
        mQSet = SCPQuorumSet 1 [1] [], mQSetHash = (), mSingleQSet = SCPQuorumSet 1 [1] [],
        mSCP = ()\<rparr>
       1 (SCPQuorumSet 3 [1 :: nat, 2] []) \<and>
   thresholdsInRange (SCPQuorumSet 1 [1 :: nat, 2] [SCPQuorumSet 1 [3, 1] []]) \<and>
   \<not> distinct (allValidators (SCPQuorumSet 1 [1 :: nat, 2] [SCPQuorumSet 1 [3, 1] []])) \<and>
   \<not> isQuorumSetSane
       \<lparr>mNodeID = 1 :: nat, mSecretKey = (), mIsValidator = True,
        mQSet = SCPQuorumSet 1 [1] [], mQSetHash = (), mSingleQSet = SCPQuorumSet 1 [1] [],
        mSCP = ()\<rparr>
       1 (SCPQuorumSet 1 [1 :: nat, 2] [SCPQuorumSet 1 [3, 1] []])"
  using
    isQuorumSetSane_rejects_malformed
      [of "SCPQuorumSet 1 [1 :: nat] [SCPQuorumSet 0 [2] []]"
        "\<lparr>mNodeID = 1 :: nat, mSecretKey = (), mIsValidator = True,
          mQSet = SCPQuorumSet 1 [1] [], mQSetHash = (), mSingleQSet = SCPQuorumSet 1 [1] [],
          mSCP = ()\<rparr>" 1]
    isQuorumSetSane_rejects_malformed
      [of "SCPQuorumSet 3 [1 :: nat, 2] []"
        "\<lparr>mNodeID = 1 :: nat, mSecretKey = (), mIsValidator = True,
          mQSet = SCPQuorumSet 1 [1] [], mQSetHash = (), mSingleQSet = SCPQuorumSet 1 [1] [],
          mSCP = ()\<rparr>" 1]
    isQuorumSetSane_rejects_malformed
      [of "SCPQuorumSet 1 [1 :: nat, 2] [SCPQuorumSet 1 [3, 1] []]"
        "\<lparr>mNodeID = 1 :: nat, mSecretKey = (), mIsValidator = True,
          mQSet = SCPQuorumSet 1 [1] [], mQSetHash = (), mSingleQSet = SCPQuorumSet 1 [1] [],
          mSCP = ()\<rparr>" 1]
  by simp

text \<open>
  Claim C6. For a well-formed quorum set that does not name \<open>nodeID\<close>, the check succeeds
  exactly when the local node is not a validator and \<open>nodeID\<close> is its own ID: the set
  of a validating node that omits the node's own ID is rejected. A well-formed quorum set
  that names \<open>nodeID\<close> is accepted.
\<close>

theorem isQuorumSetSane_self_inclusion:
  assumes "wellFormed q"
  shows "(nodeID \<notin> set (allValidators q) \<longrightarrow>
            isQuorumSetSane ln nodeID q = (\<not> mIsValidator ln \<and> nodeID = mNodeID ln)) \<and>
         (mIsValidator ln \<and> mNodeID ln \<notin> set (allValidators q) \<longrightarrow>
            \<not> isQuorumSetSane ln (mNodeID ln) q) \<and>
         (nodeID \<in> set (allValidators q) \<longrightarrow> isQuorumSetSane ln nodeID q)"
  using assms by (auto simp: isQuorumSetSane_iff)

theorem isQuorumSetSane_self_inclusion_witness:
  "wellFormed (SCPQuorumSet 2 [2 :: nat, 3] [SCPQuorumSet 1 [4] []]) \<and>
   1 \<notin> set (allValidators (SCPQuorumSet 2 [2 :: nat, 3] [SCPQuorumSet 1 [4] []])) \<and>
   isQuorumSetSane
       \<lparr>mNodeID = 1 :: nat, mSecretKey = (), mIsValidator = False,
        mQSet = SCPQuorumSet 1 [1] [], mQSetHash = (), mSingleQSet = SCPQuorumSet 1 [1] [],
        mSCP = ()\<rparr>
       1 (SCPQuorumSet 2 [2 :: nat, 3] [SCPQuorumSet 1 [4] []]) \<and>
   \<not> isQuorumSetSane
       \<lparr>mNodeID = 1 :: nat, mSecretKey = (), mIsValidator = True,
        mQSet = SCPQuorumSet 1 [1] [], mQSetHash = (), mSingleQSet = SCPQuorumSet 1 [1] [],
        mSCP = ()\<rparr>
       1 (SCPQuorumSet 2 [2 :: nat, 3] [SCPQuorumSet 1 [4] []]) \<and>
   4 \<in> set (allValidators (SCPQuorumSet 2 [2 :: nat, 3] [SCPQuorumSet 1 [4] []])) \<and>
   isQuorumSetSane
       \<lparr>mNodeID = 1 :: nat, mSecretKey = (), mIsValidator = True,
        mQSet = SCPQuorumSet 1 [1] [], mQSetHash = (), mSingleQSet = SCPQuorumSet 1 [1] [],
        mSCP = ()\<rparr>
       4 (SCPQuorumSet 2 [2 :: nat, 3] [SCPQuorumSet 1 [4] []])"
proof -
  have wf: "wellFormed (SCPQuorumSet 2 [2 :: nat, 3] [SCPQuorumSet 1 [4] []])"
    by (simp add: wellFormed_def)
  show ?thesis
    using wf
      isQuorumSetSane_self_inclusion
        [OF wf, of 1 "\<lparr>mNodeID = 1 :: nat, mSecretKey = (), mIsValidator = False,
          mQSet = SCPQuorumSet 1 [1] [], mQSetHash = (), mSingleQSet = SCPQuorumSet 1 [1] [],
          mSCP = ()\<rparr>"]
      isQuorumSetSane_self_inclusion
        [OF wf, of 1 "\<lparr>mNodeID = 1 :: nat, mSecretKey = (), mIsValidator = True,
          mQSet = SCPQuorumSet 1 [1] [], mQSetHash = (), mSingleQSet = SCPQuorumSet 1 [1] [],
          mSCP = ()\<rparr>"]
      isQuorumSetSane_self_inclusion
        [OF wf, of 4 "\<lparr>mNodeID = 1 :: nat, mSecretKey = (), mIsValidator = True,
          mQSet = SCPQuorumSet 1 [1] [], mQSetHash = (), mSingleQSet = SCPQuorumSet 1 [1] [],
          mSCP = ()\<rparr>"]
    by simp
qed

section \<open>Canonicalisation reaches a normal form\<close>

lemma removeSelf_set: "set (fst (removeSelf self v t)) = set v - {self}"
  by (induction v arbitrary: t) (auto simp: case_prod_beta)

lemma removeSelf_absent:
  "self \<notin> set v \<Longrightarrow> removeSelf self v t = (v, t)"
  by (induction v arbitrary: t) auto

lemma adjustInnerSets_normalised:
  assumes "\<And>q. q \<in> set qs \<Longrightarrow> normalised self (adjustQSetHelper self q)"
  shows "list_all (\<lambda>q. normalised self q \<and> threshold q \<noteq> 0) (fst (adjustInnerSets self qs t))"
  using assms
proof (induction qs arbitrary: t)
  case Nil
  show ?case by simp
next
  case (Cons q qs)
  then show ?case
    by (cases "threshold (adjustQSetHelper self q) = 0") (simp_all add: case_prod_beta Let_def)
qed

lemma adjustQSetHelper_normalised: "normalised self (adjustQSetHelper self q)"
proof (induction q)
  case (SCPQuorumSet t v i)
  obtain i' t1 where i': "adjustInnerSets self i t = (i', t1)"
    by (cases "adjustInnerSets self i t")
  obtain v' t2 where v': "removeSelf self v t1 = (v', t2)"
    by (cases "removeSelf self v t1")
  have inner: "list_all (\<lambda>q. normalised self q \<and> threshold q \<noteq> 0) i'"
    using adjustInnerSets_normalised [of i self t] SCPQuorumSet.IH i' by simp
  have vs: "self \<notin> set v'"
    using removeSelf_set [of self v t1] v' by simp
  show ?case
  proof (cases "t2 = 1 \<and> length v' = 0 \<and> length i' = 1")
    case True
    then obtain q where "i' = [q]"
      by (cases i') auto
    with True inner i' v' show ?thesis
      by simp
  next
    case False
    with inner vs i' v' show ?thesis
      by auto
  qed
qed

lemma adjustInnerSets_fixed:
  assumes "\<And>q. q \<in> set qs \<Longrightarrow> adjustQSetHelper self q = q"
    and "list_all (\<lambda>q. threshold q \<noteq> 0) qs"
  shows "adjustInnerSets self qs t = (qs, t)"
  using assms by (induction qs arbitrary: t) auto

lemma adjustQSetHelper_fixed:
  "normalised self q \<Longrightarrow> adjustQSetHelper self q = q"
proof (induction q)
  case (SCPQuorumSet t v i)
  have "adjustInnerSets self i t = (i, t)"
    using SCPQuorumSet by (intro adjustInnerSets_fixed) (auto simp: list_all_iff)
  moreover have "removeSelf self v t = (v, t)"
    using SCPQuorumSet.prems by (simp add: removeSelf_absent)
  ultimately show ?case
    using SCPQuorumSet.prems by auto
qed




text \<open>
  Claim C8. Canonicalisation is idempotent: \<open>adjustQSet\<close> applied to its own output
  returns that output.
\<close>

theorem adjustQSet_idempotent:
  "adjustQSet self (adjustQSet self q) = adjustQSet self q"
proof (cases "threshold (adjustQSetHelper self q) = 0")
  case True
  then have "adjustQSet self q = SCPQuorumSet 1 [self] []"
    by (simp add: adjustQSet_def)
  moreover have "adjustQSet self (SCPQuorumSet 1 [self] []) = SCPQuorumSet 1 [self] []"
    by (simp add: adjustQSet_def)
  ultimately show ?thesis
    by simp
next
  case False
  let ?R = "adjustQSetHelper self q"
  have out: "adjustQSet self q = SCPQuorumSet 2 [self] [?R]"
    using False by (simp add: adjustQSet_def)
  have fixed: "adjustQSetHelper self ?R = ?R"
    by (rule adjustQSetHelper_fixed) (rule adjustQSetHelper_normalised)
  have "adjustQSetHelper self (SCPQuorumSet 2 [self] [?R]) = ?R"
    using False fixed by simp
  then have "adjustQSet self (SCPQuorumSet 2 [self] [?R]) = SCPQuorumSet 2 [self] [?R]"
    using False by (simp add: adjustQSet_def)
  with out show ?thesis
    by simp
qed

section \<open>Weights, accessors and the detection loop\<close>

lemma weightInnerSets_zero:
  assumes "\<And>q. q \<in> set qs \<Longrightarrow> getNodeWeight nodeID q = 0"
  shows "weightInnerSets nodeID qs n d = 0"
  using assms by (induction qs) simp_all

lemma getNodeWeight_absent:
  "nodeID \<notin> set (allValidators q) \<Longrightarrow> getNodeWeight nodeID q = 0"
proof (induction q)
  case (SCPQuorumSet t v i)
  have "weightInnerSets nodeID i (ucast t) (of_nat (length i) + of_nat (length v)) = 0"
    using SCPQuorumSet by (intro weightInnerSets_zero) auto
  with SCPQuorumSet.prems show ?case
    by simp
qed

lemma bigDivide_half: "bigDivide UINT64_MAX 1 2 = UINT64_MAX div 2"
  by (simp add: bigDivide_def UINT64_MAX_def unsigned_minus_1_eq_mask mask_eq_exp_minus_1)

text \<open>
  Claim C9. For \<open>{threshold = 1, validators = [A, B], innerSets = []}\<close> with distinct
  \<open>A\<close> and \<open>B\<close> both weights are \<open>UINT64_MAX / 2\<close>, and the weight of a node that is
  nowhere in a tree is 0.
\<close>

theorem getNodeWeight_normalised:
  "((A :: 'n) \<noteq> B \<longrightarrow>
      getNodeWeight A (SCPQuorumSet 1 [A, B] []) = UINT64_MAX div 2 \<and>
      getNodeWeight B (SCPQuorumSet 1 [A, B] []) = UINT64_MAX div 2) \<and>
   ((target :: 'n) \<notin> set (allValidators tree) \<longrightarrow> getNodeWeight target tree = 0)"
  using bigDivide_half by (simp add: getNodeWeight_absent)

theorem getNodeWeight_normalised_witness:
  "(1 :: nat) \<noteq> 2 \<and>
   getNodeWeight (1 :: nat) (SCPQuorumSet 1 [1, 2] []) = 9223372036854775807 \<and>
   getNodeWeight (2 :: nat) (SCPQuorumSet 1 [1, 2] []) = 9223372036854775807 \<and>
   (3 :: nat) \<notin> set (allValidators (SCPQuorumSet 2 [1, 2] [SCPQuorumSet 1 [4] []])) \<and>
   getNodeWeight (3 :: nat) (SCPQuorumSet 2 [1, 2] [SCPQuorumSet 1 [4] []]) = 0"
  using getNodeWeight_normalised [of "1 :: nat" 2 3 "SCPQuorumSet 2 [1, 2] [SCPQuorumSet 1 [4] []]"]
  by (simp add: UINT64_MAX_def)

text \<open>
  Claim C10. \<open>updateQuorumSet\<close> stores the given quorum set as it is and the hash of its
  serialisation, and changes no other field; \<open>getQuorumSet\<close> and \<open>getQuorumSetHash\<close> then
  return the stored set and hash. The constructor, in contrast, stores the canonicalised set.
\<close>

theorem updateQuorumSet_frame:
  "getQuorumSet (updateQuorumSet hashQSet ln newQset) = newQset \<and>
   getQuorumSetHash (updateQuorumSet hashQSet ln newQset) = hashQSet newQset \<and>
   mNodeID (updateQuorumSet hashQSet ln newQset) = mNodeID ln \<and>
   mIsValidator (updateQuorumSet hashQSet ln newQset) = mIsValidator ln \<and>
   mSecretKey (updateQuorumSet hashQSet ln newQset) = mSecretKey ln \<and>
   mSingleQSet (updateQuorumSet hashQSet ln newQset) = mSingleQSet ln \<and>
   mSCP (updateQuorumSet hashQSet ln newQset) = mSCP ln \<and>
   updateQuorumSet hashQSet ln newQset = ln\<lparr>mQSet := newQset, mQSetHash := hashQSet newQset\<rparr> \<and>
   getQuorumSet (fst (newLocalNode getPublicKey hashQSet secretKey isVal newQset scp))
     = adjustQSet (getPublicKey secretKey) newQset"
  by (simp add: updateQuorumSet_def getQuorumSet_def getQuorumSetHash_def newLocalNode_def Let_def)

lemma quorumRounds_bound_aux:
  "quorumRounds m qfun pNodes \<le> length pNodes + 1"
proof (induction m qfun pNodes rule: quorumRounds.induct)
  case (1 m qfun pNodes)
  let ?f = "filter (quorumFilter m qfun pNodes) pNodes"
  show ?case
  proof (cases "length pNodes \<noteq> length ?f")
    case False
    then show ?thesis
      by (subst quorumRounds.simps) (simp add: Let_def)
  next
    case True
    have "length ?f \<le> length pNodes"
      by (rule length_filter_le)
    with True have less: "length ?f < length pNodes"
      by linarith
    have "quorumRounds m qfun ?f \<le> length ?f + 1"
      using "1.IH" [OF refl refl True] .
    with less True show ?thesis
      by (subst quorumRounds.simps) (simp add: Let_def)
  qed
qed

lemma quorumLoop_subset:
  "set (quorumLoop m qfun pNodes) \<subseteq> set pNodes"
proof (induction m qfun pNodes rule: quorumLoop.induct)
  case (1 m qfun pNodes)
  let ?f = "filter (quorumFilter m qfun pNodes) pNodes"
  show ?case
  proof (cases "length pNodes \<noteq> length ?f")
    case False
    then show ?thesis
      by (subst quorumLoop.simps) (auto simp add: Let_def)
  next
    case True
    have "set (quorumLoop m qfun ?f) \<subseteq> set ?f"
      using "1.IH" [OF refl refl True] .
    with True show ?thesis
      by (subst quorumLoop.simps) (auto simp add: Let_def)
  qed
qed

lemma quorumLoop_length:
  "length (quorumLoop m qfun pNodes) \<le> length pNodes"
proof (induction m qfun pNodes rule: quorumLoop.induct)
  case (1 m qfun pNodes)
  let ?f = "filter (quorumFilter m qfun pNodes) pNodes"
  have le: "length ?f \<le> length pNodes"
    by (rule length_filter_le)
  show ?case
  proof (cases "length pNodes \<noteq> length ?f")
    case False
    then show ?thesis
      by (subst quorumLoop.simps) (simp add: Let_def)
  next
    case True
    have "length (quorumLoop m qfun ?f) \<le> length ?f"
      using "1.IH" [OF refl refl True] .
    then have "length (quorumLoop m qfun ?f) \<le> length pNodes"
      using le by (rule order_trans)
    with True show ?thesis
      by (subst quorumLoop.simps) (simp add: Let_def)
  qed
qed

text \<open>
  \<open>quorumRounds\<close> counts the rounds of \<open>quorumLoop\<close>: the pool the loop ends with is
  the pool after that many filtering rounds.
\<close>

lemma quorumLoop_rounds:
  "quorumLoop m qfun pNodes =
     ((\<lambda>p. filter (quorumFilter m qfun p) p) ^^ quorumRounds m qfun pNodes) pNodes"
proof (induction m qfun pNodes rule: quorumLoop.induct)
  case (1 m qfun pNodes)
  let ?round = "\<lambda>p. filter (quorumFilter m qfun p) p"
  show ?case
  proof (cases "length pNodes \<noteq> length (?round pNodes)")
    case False
    then have "quorumLoop m qfun pNodes = ?round pNodes" "quorumRounds m qfun pNodes = 1"
      by (subst quorumLoop.simps quorumRounds.simps, simp add: Let_def)+
    then show ?thesis
      by simp
  next
    case True
    then have "quorumLoop m qfun pNodes = quorumLoop m qfun (?round pNodes)"
      "quorumRounds m qfun pNodes = Suc (quorumRounds m qfun (?round pNodes))"
      by (subst quorumLoop.simps quorumRounds.simps, simp add: Let_def)+
    moreover have "quorumLoop m qfun (?round pNodes) =
        (?round ^^ quorumRounds m qfun (?round pNodes)) (?round pNodes)"
      using "1.IH" [OF refl refl True] .
    moreover have "(?round ^^ Suc (quorumRounds m qfun (?round pNodes))) pNodes =
        (?round ^^ quorumRounds m qfun (?round pNodes)) (?round pNodes)"
      by (simp only: funpow_Suc_right o_apply)
    ultimately show ?thesis
      by (simp only:)
  qed
qed

text \<open>
  Claim C4 as stated asks for at most \<open>|pNodes|\<close> rounds. With the single node 2, whose
  quorum set \<open>{threshold = 1, validators = [3]}\<close> names a node that sent nothing, the first
  round of the \<^verbatim>\<open>do ... while\<close> loop removes node 2 and a second round is needed to find
  the pool unchanged: two rounds for one node.
\<close>

theorem isQuorum_rounds_counterexample:
  "relevantNodes [(2 :: nat, \<lparr>statement = SCPQuorumSet 1 [3 :: nat] []\<rparr>)] (\<lambda>st. True) = [2] \<and>
   quorumRounds [(2 :: nat, \<lparr>statement = SCPQuorumSet 1 [3 :: nat] []\<rparr>)] (\<lambda>st. st)
     (relevantNodes [(2 :: nat, \<lparr>statement = SCPQuorumSet 1 [3 :: nat] []\<rparr>)] (\<lambda>st. True)) = 2 \<and>
   \<not> quorumRounds [(2 :: nat, \<lparr>statement = SCPQuorumSet 1 [3 :: nat] []\<rparr>)] (\<lambda>st. st)
       (relevantNodes [(2 :: nat, \<lparr>statement = SCPQuorumSet 1 [3 :: nat] []\<rparr>)] (\<lambda>st. True))
     \<le> length (relevantNodes [(2 :: nat, \<lparr>statement = SCPQuorumSet 1 [3 :: nat] []\<rparr>)]
         (\<lambda>st. True))"
proof -
  let ?m = "[(2 :: nat, \<lparr>statement = SCPQuorumSet 1 [3 :: nat] []\<rparr>)]"
  have rel: "relevantNodes ?m (\<lambda>st. True) = [2]"
    by (simp add: relevantNodes_def)
  have flt: "\<not> quorumFilter ?m (\<lambda>st. st) [2] 2"
    by (simp add: quorumFilter_def isQuorumSlice_def)
  have last: "quorumRounds ?m (\<lambda>st. st) [] = 1"
    by (subst quorumRounds.simps) simp
  have "quorumRounds ?m (\<lambda>st. st) [2] = 2"
    by (subst quorumRounds.simps) (simp add: flt last)
  with rel show ?thesis
    by simp
qed

text \<open>
  Claim C4, amended. The filtering loop of \<open>isQuorum\<close> terminates (\<open>quorumLoop\<close> is a total
  function) after at most \<open>|pNodes| + 1\<close> rounds, where \<open>pNodes\<close> holds the nodes whose
  statements pass the relevance predicate: every round but the last removes a node,
  and the last finds nothing to remove. The pool it ends with is a part of \<open>pNodes\<close>.
\<close>

theorem isQuorum_rounds_bound:
  "quorumRounds m qfun (relevantNodes m flt) \<le> length (relevantNodes m flt) + 1 \<and>
   quorumLoop m qfun (relevantNodes m flt) =
     ((\<lambda>p. filter (quorumFilter m qfun p) p) ^^ quorumRounds m qfun (relevantNodes m flt))
       (relevantNodes m flt) \<and>
   length (quorumLoop m qfun (relevantNodes m flt)) \<le> length (relevantNodes m flt) \<and>
   isQuorum qSet m qfun flt
     = isQuorumSlice qSet (quorumLoop m qfun (relevantNodes m flt))"
  using quorumRounds_bound_aux [of m qfun "relevantNodes m flt"]
    quorumLoop_length [of m qfun "relevantNodes m flt"]
    quorumLoop_rounds [of m qfun "relevantNodes m flt"]
  by (simp add: isQuorum_def)

section \<open>V-blocking is the dual of the slice test\<close>

text \<open>
  With a threshold in range and fewer than \<open>2 ^ 31\<close> direct entries the subtraction does
  not wrap and the conversion to \<^verbatim>\<open>int\<close> is exact.
\<close>

lemma leftTillBlockInit_of_nat:
  assumes "unat t \<le> 1 + length v + length i"
  shows "leftTillBlockInit v i t = of_nat (1 + length v + length i - unat t)"
proof -
  have "(ucast t :: size_t) = of_nat (unat t)"
    by simp
  then show ?thesis
    using assms by (simp add: leftTillBlockInit_def del: of_nat_unat)
qed

lemma toInt_of_nat:
  assumes "k < 2 ^ 31"
  shows "toInt (of_nat k) = int k"
proof -
  have "k < 2 ^ 64"
    using assms by (rule less_trans) simp
  then have "(ucast (of_nat k :: size_t) :: 32 word) = of_nat k"
    by (simp add: ucast_eq unsigned_of_nat take_bit_nat_eq_self)
  moreover have "sint (of_nat k :: 32 word) = int k"
    using assms by (simp add: signed_of_nat signed_take_bit_int_eq_self)
  ultimately show ?thesis
    by (simp add: toInt_def)
qed

lemma toInt_leftTillBlockInit:
  assumes "1 \<le> unat t" "unat t \<le> length v + length i" "length v + length i < 2 ^ 31"
  shows "toInt (leftTillBlockInit v i t) = int (1 + length v + length i - unat t)"
proof -
  have "unat t \<le> 1 + length v + length i"
    using assms by linarith
  then have init: "leftTillBlockInit v i t = of_nat (1 + length v + length i - unat t)"
    by (rule leftTillBlockInit_of_nat)
  have "1 + length v + length i - unat t < 2 ^ 31"
    using assms by linarith
  then show ?thesis
    unfolding init by (rule toInt_of_nat)
qed


lemma vbValidators_count:
  "0 < left \<Longrightarrow>
   (case vbValidators vs S left of
      None \<Rightarrow> left \<le> int (length (filter (\<lambda>n. n \<in> set S) vs))
    | Some l \<Rightarrow> 0 < l \<and> l = left - int (length (filter (\<lambda>n. n \<in> set S) vs)))"
proof (induction vs arbitrary: left)
  case Nil
  then show ?case by simp
next
  case (Cons a vs)
  show ?case
  proof (cases "a \<in> set S")
    case False
    with Cons.IH [OF Cons.prems] show ?thesis
      by (simp split: option.splits)
  next
    case True
    note hit = this
    show ?thesis
    proof (cases "left - 1 \<le> 0")
      case True
      with hit show ?thesis by simp
    next
      case False
      then have "0 < left - 1" by simp
      from Cons.IH [OF this] hit False show ?thesis
        by (auto split: option.splits)
    qed
  qed
qed

lemma vbInnerSets_count:
  "0 < left \<Longrightarrow>
   vbInnerSets qs S left = (left \<le> int (length (filter (\<lambda>q. isVBlockingInternal q S) qs)))"
proof (induction qs arbitrary: left)
  case Nil
  then show ?case by simp
next
  case (Cons q qs)
  show ?case
  proof (cases "isVBlockingInternal q S")
    case False
    with Cons.IH [OF Cons.prems] show ?thesis by simp
  next
    case True
    note hit = this
    show ?thesis
    proof (cases "left - 1 \<le> 0")
      case True
      with hit show ?thesis by simp
    next
      case False
      then have "0 < left - 1" by simp
      from Cons.IH [OF this] hit False show ?thesis
        by auto
    qed
  qed
qed

lemma isVBlockingInternal_count:
  assumes "1 \<le> unat t" "unat t \<le> length v + length i" "length v + length i < 2 ^ 31"
  shows "isVBlockingInternal (SCPQuorumSet t v i) S =
     (1 + length v + length i
        \<le> unat t + length (filter (\<lambda>n. n \<in> set S) v)
            + length (filter (\<lambda>q. isVBlockingInternal q S) i))"
proof -
  define K where "K = 1 + length v + length i - unat t"
  define hv where "hv = length (filter (\<lambda>n. n \<in> set S) v)"
  define hi where "hi = length (filter (\<lambda>q. isVBlockingInternal q S) i)"
  have K: "0 < K" "K + unat t = 1 + length v + length i"
    using assms by (simp_all add: K_def)
  have t: "t \<noteq> 0"
    using assms(1) by auto
  have init: "toInt (leftTillBlockInit v i t) = int K"
    unfolding K_def using assms by (rule toInt_leftTillBlockInit)
  have pos: "0 < int K"
    using K(1) by (simp only: of_nat_0_less_iff)
  have unfold: "isVBlockingInternal (SCPQuorumSet t v i) S =
      (case vbValidators v S (int K) of None \<Rightarrow> True | Some l \<Rightarrow> vbInnerSets i S l)"
    using t init by simp
  have goal: "(1 + length v + length i \<le> unat t + hv + hi) = (K \<le> hv + hi)"
    using K by linarith
  show ?thesis
  proof (cases "vbValidators v S (int K)")
    case None
    with vbValidators_count [OF pos, where vs = v and S = S]
    have "int K \<le> int hv"
      by (simp add: hv_def)
    then have "K \<le> hv"
      by (simp only: of_nat_le_iff)
    then have "K \<le> hv + hi"
      by simp
    with None unfold goal show ?thesis
      by (simp add: hv_def hi_def)
  next
    case (Some l)
    with vbValidators_count [OF pos, where vs = v and S = S]
    have l: "0 < l" "l = int K - int hv"
      by (simp_all add: hv_def)
    then have less: "hv < K"
      by linarith
    have "vbInnerSets i S l = (l \<le> int hi)"
      unfolding hi_def using l(1) by (rule vbInnerSets_count)
    also have "\<dots> = (K \<le> hv + hi)"
      using l(2) less by linarith
    finally show ?thesis
      using Some unfold goal by (simp add: hv_def hi_def)
  qed
qed

lemma isVBlockingInternal_blocked:
  "thresholdsInRange q \<Longrightarrow> entriesFitInt q \<Longrightarrow> isVBlockingInternal q S = blocked q S"
proof (induction q)
  case (SCPQuorumSet t v i)
  have r: "1 \<le> unat t" "unat t \<le> length v + length i" "length v + length i < 2 ^ 31"
    using SCPQuorumSet.prems by simp_all
  have "filter (\<lambda>q. isVBlockingInternal q S) i = filter (\<lambda>q. blocked q S) i"
    using SCPQuorumSet by (intro filter_cong) (auto simp: list_all_iff)
  then show ?case
    by (simp only: isVBlockingInternal_count [OF r] blocked.simps)
qed

lemma length_filter_mono:
  assumes "\<And>x. x \<in> set xs \<Longrightarrow> P x \<Longrightarrow> Q x"
  shows "length (filter P xs) \<le> length (filter Q xs)"
  using assms by (induction xs) auto

lemma length_filter_split:
  "length (filter P xs) + length (filter (\<lambda>x. \<not> P x) xs) = length xs"
  by (induction xs) auto

lemma satisfied_mono:
  "satisfied q T \<Longrightarrow> set T \<subseteq> set T' \<Longrightarrow> satisfied q T'"
proof (induction q)
  case (SCPQuorumSet t v i)
  have "length (filter (\<lambda>n. n \<in> set T) v) \<le> length (filter (\<lambda>n. n \<in> set T') v)"
    using SCPQuorumSet.prems(2) by (intro length_filter_mono) auto
  moreover have "length (filter (\<lambda>q. satisfied q T) i) \<le> length (filter (\<lambda>q. satisfied q T') i)"
    using SCPQuorumSet.IH SCPQuorumSet.prems(2) by (intro length_filter_mono) auto
  ultimately show ?case
    using SCPQuorumSet.prems(1) by simp
qed

text \<open>A blocked set has no slice among the nodes outside the blocking set.\<close>

lemma blocked_no_slice:
  "thresholdsInRange q \<Longrightarrow> blocked q S \<Longrightarrow> set T \<inter> set S = {} \<Longrightarrow> \<not> satisfied q T"
proof (induction q)
  case (SCPQuorumSet t v i)
  have v: "length (filter (\<lambda>n. n \<in> set T) v) \<le> length (filter (\<lambda>n. n \<notin> set S) v)"
    using SCPQuorumSet.prems(3) by (intro length_filter_mono) auto
  have i: "length (filter (\<lambda>q. satisfied q T) i) \<le> length (filter (\<lambda>q. \<not> blocked q S) i)"
    using SCPQuorumSet.IH SCPQuorumSet.prems by (intro length_filter_mono) (auto simp: list_all_iff)
  have "1 + length v + length i
      \<le> unat t + length (filter (\<lambda>n. n \<in> set S) v) + length (filter (\<lambda>q. blocked q S) i)"
    using SCPQuorumSet.prems(2) by simp
  with v i length_filter_split [of "\<lambda>n. n \<in> set S" v]
    length_filter_split [of "\<lambda>q. blocked q S" i]
  have "length (filter (\<lambda>n. n \<in> set T) v) + length (filter (\<lambda>q. satisfied q T) i) < unat t"
    by linarith
  then show ?case
    by simp
qed

text \<open>A set that is not blocked is satisfied by its own validators outside the node set.\<close>

lemma unblocked_slice:
  "thresholdsInRange q \<Longrightarrow> \<not> blocked q S \<Longrightarrow>
     satisfied q (filter (\<lambda>n. n \<notin> set S) (allValidators q))"
proof (induction q)
  case (SCPQuorumSet t v i)
  let ?T = "filter (\<lambda>n. n \<notin> set S) (allValidators (SCPQuorumSet t v i))"
  have v: "length (filter (\<lambda>n. n \<notin> set S) v) \<le> length (filter (\<lambda>n. n \<in> set ?T) v)"
    by (intro length_filter_mono) auto
  have inner: "satisfied q ?T" if "q \<in> set i" "\<not> blocked q S" for q
  proof -
    have "satisfied q (filter (\<lambda>n. n \<notin> set S) (allValidators q))"
      using SCPQuorumSet.IH [OF that(1)] SCPQuorumSet.prems(1) that
      by (simp add: list_all_iff)
    moreover have "set (filter (\<lambda>n. n \<notin> set S) (allValidators q)) \<subseteq> set ?T"
      using that(1) by auto
    ultimately show ?thesis
      by (rule satisfied_mono)
  qed
  have i: "length (filter (\<lambda>q. \<not> blocked q S) i) \<le> length (filter (\<lambda>q. satisfied q ?T) i)"
    using inner by (intro length_filter_mono) auto
  have "unat t + length (filter (\<lambda>n. n \<in> set S) v) + length (filter (\<lambda>q. blocked q S) i)
      < 1 + length v + length i"
    using SCPQuorumSet.prems(2) by simp
  with v i length_filter_split [of "\<lambda>n. n \<in> set S" v]
    length_filter_split [of "\<lambda>q. blocked q S" i]
  have "unat t \<le> length (filter (\<lambda>n. n \<in> set ?T) v) + length (filter (\<lambda>q. satisfied q ?T) i)"
    by linarith
  then show ?case
    by (simp only: satisfied.simps)
qed

lemma blocked_dual:
  assumes "thresholdsInRange q"
  shows "blocked q S = (\<not> (\<exists>T. set T \<inter> set S = {} \<and> satisfied q T))"
proof
  assume "blocked q S"
  with assms show "\<not> (\<exists>T. set T \<inter> set S = {} \<and> satisfied q T)"
    using blocked_no_slice by blast
next
  assume none: "\<not> (\<exists>T. set T \<inter> set S = {} \<and> satisfied q T)"
  show "blocked q S"
  proof (rule ccontr)
    assume "\<not> blocked q S"
    with assms have "satisfied q (filter (\<lambda>n. n \<notin> set S) (allValidators q))"
      by (rule unblocked_slice)
    moreover have "set (filter (\<lambda>n. n \<notin> set S) (allValidators q)) \<inter> set S = {}"
      by auto
    ultimately show False
      using none by blast
  qed
qed

lemma thresholdsInRange_positive:
  "thresholdsInRange q \<Longrightarrow> thresholdsPositive q"
  by (induction q) (auto simp: list_all_iff)

text \<open>
  Claim C1: for every well-formed quorum set and every node set \<open>S\<close>, \<open>isVBlocking\<close> holds
  if and only if no node set disjoint from \<open>S\<close> is a quorum slice. The code misses this
  where the count \<open>1 + entries - threshold\<close>, computed in \<^verbatim>\<open>size_t\<close>, does not survive the
  narrowing to the 32-bit \<^verbatim>\<open>int\<close> counter (\<open>findClosestVBlocking\<close> keeps the same count in
  \<^verbatim>\<open>size_t\<close>). For the well-formed set with threshold 1 and the \<open>2 ^ 31 + 1\<close> validators
  \<open>0, 1, \<dots>, 2 ^ 31\<close> the counter starts at \<open>(int) 2147483649 = - 2147483647\<close>, so the
  single node 0 is reported v-blocking, although the slice \<open>{1}\<close> is disjoint from it.
\<close>

theorem isVBlocking_dual_counterexample:
  "wellFormed (SCPQuorumSet 1 (0 # 1 # [2 ..< 2147483649]) []) \<and>
   isVBlocking (SCPQuorumSet 1 (0 # 1 # [2 ..< 2147483649]) []) [0] \<and>
   set [1 :: nat] \<inter> set [0] = {} \<and>
   isQuorumSlice (SCPQuorumSet 1 (0 # 1 # [2 ..< 2147483649]) []) [1]"
proof (intro conjI)
  show "wellFormed (SCPQuorumSet 1 (0 # 1 # [2 ..< 2147483649]) [])"
    by (simp add: wellFormed_def del: upt_rec_numeral)
  have "toInt (leftTillBlockInit (0 # 1 # [2 ..< 2147483649]) [] 1) = - 2147483647"
    by (simp add: toInt_def leftTillBlockInit_def del: upt_rec_numeral)
  then show "isVBlocking (SCPQuorumSet 1 (0 # 1 # [2 ..< 2147483649]) []) [0]"
    by (simp add: isVBlocking_def del: upt_rec_numeral)
  show "set [1 :: nat] \<inter> set [0] = {}"
    by simp
  show "isQuorumSlice (SCPQuorumSet 1 (0 # 1 # [2 ..< 2147483649]) []) [1]"
    by (simp add: isQuorumSlice_def del: upt_rec_numeral)
qed

text \<open>
  Where the narrowing is exact the code does compute the dual: for every well-formed
  quorum set (every threshold between 1 and the number of direct entries, no NodeID
  twice) in which every set has fewer than \<open>2 ^ 31\<close> direct entries, and every node set
  \<open>S\<close>, \<open>isVBlocking\<close> holds if and only if no node set disjoint from \<open>S\<close> is a
  quorum slice.
\<close>

theorem isVBlocking_dual:
  assumes "wellFormed Q" and "entriesFitInt Q"
  shows "isVBlocking Q S = (\<not> (\<exists>T. set T \<inter> set S = {} \<and> isQuorumSlice Q T))"
proof -
  have range: "thresholdsInRange Q"
    using assms(1) by (simp add: wellFormed_def)
  then have "thresholdsPositive Q"
    by (rule thresholdsInRange_positive)
  then have slice: "isQuorumSlice Q T = satisfied Q T" for T
    unfolding isQuorumSlice_def by (rule isQuorumSliceInternal_satisfied)
  have "isVBlocking Q S = blocked Q S"
    unfolding isVBlocking_def using range assms(2) by (rule isVBlockingInternal_blocked)
  also have "\<dots> = (\<not> (\<exists>T. set T \<inter> set S = {} \<and> satisfied Q T))"
    using range by (rule blocked_dual)
  finally show ?thesis
    by (simp add: slice)
qed

theorem isVBlocking_dual_witness:
  "wellFormed (SCPQuorumSet 2 [2, 3, 4 :: nat] [SCPQuorumSet 1 [5, 6] []]) \<and>
   entriesFitInt (SCPQuorumSet 2 [2, 3, 4 :: nat] [SCPQuorumSet 1 [5, 6] []]) \<and>
   isVBlocking (SCPQuorumSet 2 [2, 3, 4 :: nat] [SCPQuorumSet 1 [5, 6] []]) [2, 3, 4] \<and>
   \<not> (\<exists>T. set T \<inter> set [2, 3, 4] = {} \<and>
          isQuorumSlice (SCPQuorumSet 2 [2, 3, 4 :: nat] [SCPQuorumSet 1 [5, 6] []]) T) \<and>
   \<not> isVBlocking (SCPQuorumSet 2 [2, 3, 4 :: nat] [SCPQuorumSet 1 [5, 6] []]) [5] \<and>
   (\<exists>T. set T \<inter> set [5] = {} \<and>
          isQuorumSlice (SCPQuorumSet 2 [2, 3, 4 :: nat] [SCPQuorumSet 1 [5, 6] []]) T)"
proof -
  let ?Q = "SCPQuorumSet 2 [2, 3, 4 :: nat] [SCPQuorumSet 1 [5, 6] []]"
  have wf: "wellFormed ?Q"
    by (simp add: wellFormed_def)
  have fit: "entriesFitInt ?Q"
    by simp
  have init: "toInt (leftTillBlockInit [2, 3, 4 :: nat] [SCPQuorumSet 1 [5, 6 :: nat] []] 2) = 3"
    "toInt (leftTillBlockInit [5, 6 :: nat] [] 1) = 2"
    by (simp_all add: toInt_def leftTillBlockInit_def)
  have yes: "isVBlocking ?Q [2, 3, 4]"
    by (simp add: isVBlocking_def init)
  have no: "\<not> isVBlocking ?Q [5]"
    by (simp add: isVBlocking_def init)
  show ?thesis
    using wf fit yes no isVBlocking_dual [OF wf fit, of "[2, 3, 4]"]
      isVBlocking_dual [OF wf fit, of "[5]"]
    by simp
qed

section \<open>The closest v-blocking set\<close>

text \<open>
  Both scans of \<open>findClosestVBlocking\<close> count down by the entries that are already blocked
  (validators outside \<open>nodes\<close>, inner sets with an empty result) and collect the others.
\<close>

lemma fcvValidators_count:
  "left \<noteq> 0 \<Longrightarrow>
   (case fcvValidators vs nodes left res of
      None \<Rightarrow> unat left \<le> length (filter (\<lambda>x. x \<notin> nodes) vs)
    | Some (l, r) \<Rightarrow> l \<noteq> 0
        \<and> unat l + length (filter (\<lambda>x. x \<notin> nodes) vs) = unat left
        \<and> r = res @ filter (\<lambda>x. x \<in> nodes) vs)"
proof (induction vs arbitrary: left res)
  case Nil
  then show ?case by simp
next
  case (Cons a vs)
  have pos: "0 < unat left"
    using Cons.prems by (simp add: unat_gt_0)
  show ?case
  proof (cases "a \<in> nodes")
    case True
    with Cons.IH [OF Cons.prems, of "res @ [a]"] show ?thesis
      by (auto split: option.splits prod.splits)
  next
    case False
    note miss = this
    show ?thesis
    proof (cases "left - 1 = 0")
      case True
      then have "left = 1" by simp
      with miss show ?thesis by simp
    next
      case False
      have u: "unat (left - 1) = unat left - 1"
        using Cons.prems by (simp add: unat_minus_one)
      from Cons.IH [OF False, of res] miss False u pos show ?thesis
        by (auto split: option.splits)
    qed
  qed
qed

lemma mset_insertBySize: "mset (insertBySize v ws) = add_mset v (mset ws)"
  by (induction ws) auto

lemma fcvInnerSets_count:
  "left \<noteq> 0 \<Longrightarrow>
   (case fcvInnerSets qs nodes left rs of
      None \<Rightarrow> unat left \<le> length (filter (\<lambda>q. findClosestVBlocking q nodes = []) qs)
    | Some (l, rs') \<Rightarrow> l \<noteq> 0
        \<and> unat l + length (filter (\<lambda>q. findClosestVBlocking q nodes = []) qs) = unat left
        \<and> mset rs' = mset rs
            + mset (filter (\<lambda>w. w \<noteq> []) (map (\<lambda>q. findClosestVBlocking q nodes) qs)))"
proof (induction qs arbitrary: left rs)
  case Nil
  then show ?case by simp
next
  case (Cons q qs)
  have pos: "0 < unat left"
    using Cons.prems by (simp add: unat_gt_0)
  show ?case
  proof (cases "findClosestVBlocking q nodes = []")
    case False
    with Cons.IH [OF Cons.prems, of "insertBySize (findClosestVBlocking q nodes) rs"]
    show ?thesis
      by (auto simp: mset_insertBySize split: option.splits prod.splits)
  next
    case True
    note empty = this
    show ?thesis
    proof (cases "left - 1 = 0")
      case True
      then have "left = 1" by simp
      with empty show ?thesis by simp
    next
      case False
      have u: "unat (left - 1) = unat left - 1"
        using Cons.prems by (simp add: unat_minus_one)
      from Cons.IH [OF False, of rs] empty False u pos show ?thesis
        by (auto split: option.splits)
    qed
  qed
qed

lemma useInternals_eq:
  "useInternals ws left res = res @ concat (take (unat left) ws)"
proof (induction ws arbitrary: left res)
  case Nil
  show ?case by simp
next
  case (Cons w ws)
  show ?case
  proof (cases "left = 0")
    case True
    then show ?thesis by simp
  next
    case False
    then have "unat left = Suc (unat (left - 1))"
      by (simp add: unat_minus_one unat_gt_0)
    with False Cons.IH [of "left - 1" "res @ w"] show ?thesis
      by simp
  qed
qed

lemma length_le_filter_image:
  assumes "mset ys \<subseteq># mset (map f xs)"
  shows "length ys \<le> length (filter (\<lambda>x. f x \<in> set ys) xs)"
proof -
  have "filter (\<lambda>w. w \<in> set ys) ys = ys"
    by simp
  then have "length ys = size (filter_mset (\<lambda>w. w \<in> set ys) (mset ys))"
    by (simp only: mset_filter [symmetric] size_mset)
  also have "\<dots> \<le> size (filter_mset (\<lambda>w. w \<in> set ys) (mset (map f xs)))"
    using assms by (intro size_mset_mono multiset_filter_mono)
  also have "\<dots> = length (filter (\<lambda>w. w \<in> set ys) (map f xs))"
    by (simp only: mset_filter [symmetric] size_mset)
  also have "\<dots> = length (filter (\<lambda>x. f x \<in> set ys) xs)"
    by (simp add: filter_map comp_def)
  finally show ?thesis .
qed


lemma unat_sub_of_nat:
  fixes w :: "'a::len word"
  assumes "k \<le> unat w"
  shows "unat (w - of_nat k) = unat w - k"
proof -
  have "unat (of_nat k :: 'a word) = k"
    using assms by (rule le_unat_uoi)
  with assms show ?thesis
    by (simp add: unat_sub_if_size)
qed

text \<open>
  The result of \<open>findClosestVBlocking\<close> on a set with its threshold in range, in terms of
  the number \<open>a\<close> of validators outside \<open>nodes\<close>, the number \<open>e\<close> of inner sets with an
  empty result and \<open>K = 1 + entries - threshold\<close>.
\<close>

lemma findClosestVBlocking_shape:
  fixes v :: "'n list" and i :: "'n SCPQuorumSet list" and t :: uint32 and nodes :: "'n set"
  defines "a \<equiv> length (filter (\<lambda>x. x \<notin> nodes) v)"
    and "e \<equiv> length (filter (\<lambda>q. findClosestVBlocking q nodes = []) i)"
    and "K \<equiv> 1 + length v + length i - unat t"
    and "pres \<equiv> filter (\<lambda>x. x \<in> nodes) v"
    and "W \<equiv> filter (\<lambda>w. w \<noteq> []) (map (\<lambda>q. findClosestVBlocking q nodes) i)"
  assumes "1 \<le> unat t" "unat t \<le> length v + length i" "length v + length i < 2 ^ 31"
  shows "(K \<le> a + e \<and> findClosestVBlocking (SCPQuorumSet t v i) nodes = []) \<or>
     (a + e < K \<and>
      (\<exists>rsI. mset rsI = mset W \<and>
         findClosestVBlocking (SCPQuorumSet t v i) nodes =
           take (K - a - e) pres
             @ concat (take (K - a - e - length (take (K - a - e) pres)) rsI)))"
proof -
  have K: "0 < K" "K < 2 ^ 31"
    using assms(6-8) by (simp_all add: K_def)
  have "unat t \<le> 1 + length v + length i"
    using assms(7) by linarith
  then have init: "leftTillBlockInit v i t = of_nat K"
    unfolding K_def by (rule leftTillBlockInit_of_nat)
  have "K < 2 ^ 64"
    using K(2) by (rule less_trans) simp
  then have uK: "unat (of_nat K :: size_t) = K"
    by (simp add: unat_of_nat)
  then have nz: "(of_nat K :: size_t) \<noteq> 0"
    using K(1) by (metis less_irrefl unat_0)
  show ?thesis
  proof (cases "fcvValidators v nodes (of_nat K) []")
    case None
    with fcvValidators_count [OF nz, where vs = v and nodes = nodes and res = "[]"]
    have "K \<le> a"
      by (simp add: uK a_def)
    with None init show ?thesis
      by simp
  next
    case (Some p1)
    obtain l1 r1 where p1: "p1 = (l1, r1)"
      by (cases p1)
    from Some p1 fcvValidators_count [OF nz, where vs = v and nodes = nodes and res = "[]"]
    have l1: "l1 \<noteq> 0" "unat l1 + a = K" "r1 = pres"
      by (simp_all add: uK a_def pres_def)
    show ?thesis
    proof (cases "fcvInnerSets i nodes l1 []")
      case None
      with fcvInnerSets_count [OF l1(1), where qs = i and nodes = nodes and rs = "[]"]
      have "unat l1 \<le> e"
        by (simp add: e_def)
      with l1(2) have "K \<le> a + e"
        by linarith
      with None Some p1 init show ?thesis
        by simp
    next
      case (Some p2)
      note inner = this
      obtain l2 rsI where p2: "p2 = (l2, rsI)"
        by (cases p2)
      from Some p2 fcvInnerSets_count [OF l1(1), where qs = i and nodes = nodes and rs = "[]"]
      have l2: "l2 \<noteq> 0" "unat l2 + e = unat l1" "mset rsI = mset W"
        by (simp_all add: e_def W_def)
      have "0 < unat l2"
        using l2(1) by (simp add: unat_gt_0)
      with l1(2) l2(2) have ul2: "unat l2 = K - a - e" and less: "a + e < K"
        by linarith+
      have res': "(if length pres > unat l2 then take (unat l2) pres else pres)
          = take (unat l2) pres"
        by simp
      have "length (take (unat l2) pres) \<le> unat l2"
        by simp
      then have ul3: "unat (l2 - of_nat (length (take (unat l2) pres)))
          = unat l2 - length (take (unat l2) pres)"
        by (rule unat_sub_of_nat)
      have "findClosestVBlocking (SCPQuorumSet t v i) nodes =
          useInternals rsI (l2 - of_nat (length (take (unat l2) pres))) (take (unat l2) pres)"
        using \<open>fcvValidators v nodes (of_nat K) [] = Some p1\<close> p1 l1(3) inner p2 init res'
        by (simp add: Let_def)
      also have "\<dots> = take (unat l2) pres
          @ concat (take (unat l2 - length (take (unat l2) pres)) rsI)"
        by (simp only: useInternals_eq ul3)
      finally show ?thesis
        using less l2(3) unfolding ul2 by blast
    qed
  qed
qed


lemma length_filter_disj:
  assumes "\<And>x. x \<in> set xs \<Longrightarrow> \<not> (P x \<and> Q x)"
  shows "length (filter (\<lambda>x. P x \<or> Q x) xs) = length (filter P xs) + length (filter Q xs)"
  using assms by (induction xs) auto

lemma mset_take_subseteq: "mset (take n xs) \<subseteq># mset xs"
proof -
  have "mset xs = mset (take n xs) + mset (drop n xs)"
    by (simp flip: mset_append)
  then show ?thesis
    by simp
qed

text \<open>
  The result together with the validators outside \<open>nodes\<close> blocks the set: the direct
  validators outside \<open>nodes\<close> and those kept in the result, and the inner sets with an
  empty result and those whose result was used, together reach \<open>K\<close>.
\<close>

lemma findClosestVBlocking_blocks:
  "thresholdsInRange q \<Longrightarrow> entriesFitInt q \<Longrightarrow>
   set (findClosestVBlocking q nodes) \<subseteq> set S \<Longrightarrow>
   (\<And>x. x \<in> set (allValidators q) \<Longrightarrow> x \<notin> nodes \<Longrightarrow> x \<in> set S) \<Longrightarrow>
   blocked q S"
proof (induction q)
  case (SCPQuorumSet t v i)
  define a where "a = length (filter (\<lambda>x. x \<notin> nodes) v)"
  define e where "e = length (filter (\<lambda>q. findClosestVBlocking q nodes = []) i)"
  define K where "K = 1 + length v + length i - unat t"
  define pres where "pres = filter (\<lambda>x. x \<in> nodes) v"
  define W where "W = filter (\<lambda>w. w \<noteq> []) (map (\<lambda>q. findClosestVBlocking q nodes) i)"
  define hv where "hv = length (filter (\<lambda>x. x \<in> set S) v)"
  define hi where "hi = length (filter (\<lambda>q. blocked q S) i)"
  have r: "1 \<le> unat t" "unat t \<le> length v + length i" "length v + length i < 2 ^ 31"
    using SCPQuorumSet.prems(1,2) by simp_all
  have K: "K + unat t = 1 + length v + length i"
    using r by (simp add: K_def)
  have inner: "blocked q S" if "q \<in> set i" "set (findClosestVBlocking q nodes) \<subseteq> set S" for q
  proof (rule SCPQuorumSet.IH [OF that(1)])
    show "thresholdsInRange q" "entriesFitInt q"
      using SCPQuorumSet.prems(1,2) that(1) by (simp_all add: list_all_iff)
    show "set (findClosestVBlocking q nodes) \<subseteq> set S"
      by (rule that(2))
    show "x \<in> set S" if "x \<in> set (allValidators q)" "x \<notin> nodes" for x
      using SCPQuorumSet.prems(4) [of x] that \<open>q \<in> set i\<close> by auto
  qed
  have absent: "x \<in> set S" if "x \<in> set v" "x \<notin> nodes" for x
    using SCPQuorumSet.prems(4) [of x] that by simp
  have a_le: "a \<le> hv"
    unfolding a_def hv_def using absent by (intro length_filter_mono) auto
  have e_le: "e \<le> hi"
    unfolding e_def hi_def using inner by (intro length_filter_mono) auto
  from findClosestVBlocking_shape [OF r, of nodes]
  consider (blocked) "K \<le> a + e"
    | (found) rsI where "a + e < K" "mset rsI = mset W"
        "findClosestVBlocking (SCPQuorumSet t v i) nodes =
           take (K - a - e) pres
             @ concat (take (K - a - e - length (take (K - a - e) pres)) rsI)"
    unfolding a_def e_def K_def pres_def W_def by blast
  then have "K \<le> hv + hi"
  proof cases
    case blocked
    with a_le e_le show ?thesis
      by linarith
  next
    case found
    define res' where "res' = take (K - a - e) pres"
    define chosen where "chosen = take (K - a - e - length res') rsI"
    have "set (take (K - a - e) pres
        @ concat (take (K - a - e - length (take (K - a - e) pres)) rsI)) \<subseteq> set S"
      using SCPQuorumSet.prems(3) unfolding found(3) .
    then have result: "set res' \<subseteq> set S" "set (concat chosen) \<subseteq> set S"
      by (simp_all add: res'_def chosen_def)
    have "mset res' \<subseteq># mset pres"
      unfolding res'_def by (rule mset_take_subseteq)
    also have "mset pres \<subseteq># mset v"
      by (simp add: pres_def)
    finally have "mset res' \<subseteq># mset (map (\<lambda>x. x) v)"
      by simp
    then have kept: "length res' \<le> length (filter (\<lambda>x. x \<in> set res') v)"
      by (rule length_le_filter_image)
    have in_nodes: "x \<in> nodes" if "x \<in> set res'" for x
      using that set_take_subset [of "K - a - e" pres] by (auto simp: res'_def pres_def)
    have "length (filter (\<lambda>x. x \<notin> nodes \<or> x \<in> set res') v)
        = a + length (filter (\<lambda>x. x \<in> set res') v)"
      unfolding a_def using in_nodes by (intro length_filter_disj) auto
    moreover have "length (filter (\<lambda>x. x \<notin> nodes \<or> x \<in> set res') v) \<le> hv"
      unfolding hv_def using absent result(1) by (intro length_filter_mono) auto
    ultimately have hv: "a + length res' \<le> hv"
      using kept by linarith
    have "mset chosen \<subseteq># mset rsI"
      unfolding chosen_def by (rule mset_take_subseteq)
    also have "mset rsI \<subseteq># mset (map (\<lambda>q. findClosestVBlocking q nodes) i)"
      by (simp add: found(2) W_def)
    finally have used: "length chosen
        \<le> length (filter (\<lambda>q. findClosestVBlocking q nodes \<in> set chosen) i)"
      by (rule length_le_filter_image)
    have "set chosen \<subseteq> set W"
      using set_take_subset [of "K - a - e - length res'" rsI] mset_eq_setD [OF found(2)]
      by (auto simp: chosen_def)
    then have nonempty: "w \<noteq> []" if "w \<in> set chosen" for w
      using that by (auto simp: W_def)
    have "length (filter (\<lambda>q. findClosestVBlocking q nodes = []
            \<or> findClosestVBlocking q nodes \<in> set chosen) i)
        = e + length (filter (\<lambda>q. findClosestVBlocking q nodes \<in> set chosen) i)"
      unfolding e_def using nonempty by (intro length_filter_disj) auto
    moreover have "length (filter (\<lambda>q. findClosestVBlocking q nodes = []
            \<or> findClosestVBlocking q nodes \<in> set chosen) i) \<le> hi"
      unfolding hi_def
    proof (intro length_filter_mono)
      fix q
      assume q: "q \<in> set i" and "findClosestVBlocking q nodes = []
            \<or> findClosestVBlocking q nodes \<in> set chosen"
      then have "set (findClosestVBlocking q nodes) \<subseteq> set S"
        using result(2) by auto
      with q show "blocked q S"
        by (rule inner)
    qed
    ultimately have hi: "e + length chosen \<le> hi"
      using used by linarith
    have "length pres + a = length v"
      unfolding pres_def a_def using length_filter_split [of "\<lambda>x. x \<in> nodes" v] by simp
    moreover have "length rsI + e = length i"
    proof -
      have "length rsI = length W"
        using found(2) by (rule mset_eq_length)
      also have "\<dots> = length (filter (\<lambda>q. \<not> findClosestVBlocking q nodes = []) i)"
        by (simp add: W_def filter_map comp_def)
      finally show ?thesis
        unfolding e_def
        using length_filter_split [of "\<lambda>q. findClosestVBlocking q nodes = []" i] by simp
    qed
    moreover have "length res' = min (K - a - e) (length pres)"
      by (simp add: res'_def min_def)
    moreover have "length chosen = min (K - a - e - length res') (length rsI)"
      by (simp add: chosen_def min_def)
    ultimately have "K \<le> a + length res' + (e + length chosen)"
      using K r(1) found(1) by (simp add: min_def split: if_splits)
    with hv hi show ?thesis
      by linarith
  qed
  with K show ?case
    by (simp add: hv_def hi_def)
qed


lemma fcvValidators_subset:
  "fcvValidators vs nodes left res = Some (l, r) \<Longrightarrow> set r \<subseteq> set res \<union> nodes"
proof (induction vs arbitrary: left res)
  case Nil
  then show ?case by auto
next
  case (Cons a vs)
  show ?case
  proof (cases "a \<in> nodes")
    case True
    with Cons.prems have "fcvValidators vs nodes left (res @ [a]) = Some (l, r)"
      by simp
    from Cons.IH [OF this] True show ?thesis
      by auto
  next
    case False
    with Cons.prems have "fcvValidators vs nodes (left - 1) res = Some (l, r)"
      by (simp add: Let_def split: if_splits)
    then show ?thesis
      by (rule Cons.IH)
  qed
qed

lemma fcvInnerSets_subset:
  "fcvInnerSets qs nodes left rs = Some (l, rs') \<Longrightarrow>
     set rs' \<subseteq> set rs \<union> (\<lambda>q. findClosestVBlocking q nodes) ` set qs"
proof (induction qs arbitrary: left rs)
  case Nil
  then show ?case by auto
next
  case (Cons q qs)
  have ins: "set (insertBySize w ws) = insert w (set ws)" for w :: "'a list" and ws
    using mset_insertBySize [of w ws] by (metis set_mset_add_mset_insert set_mset_mset)
  show ?case
  proof (cases "findClosestVBlocking q nodes = []")
    case False
    with Cons.prems have "fcvInnerSets qs nodes left
        (insertBySize (findClosestVBlocking q nodes) rs) = Some (l, rs')"
      by simp
    from Cons.IH [OF this] show ?thesis
      by (auto simp: ins)
  next
    case True
    with Cons.prems have "fcvInnerSets qs nodes (left - 1) rs = Some (l, rs')"
      by (simp add: Let_def split: if_splits)
    from Cons.IH [OF this] show ?thesis
      by auto
  qed
qed

lemma findClosestVBlocking_subset:
  "set (findClosestVBlocking q nodes) \<subseteq> nodes"
proof (induction q)
  case (SCPQuorumSet t v i)
  show ?case
  proof (cases "fcvValidators v nodes (leftTillBlockInit v i t) []")
    case None
    then show ?thesis by simp
  next
    case (Some p1)
    obtain l1 r1 where p1: "p1 = (l1, r1)"
      by (cases p1)
    have r1: "set r1 \<subseteq> nodes"
      using fcvValidators_subset [of v nodes _ "[]" l1 r1] Some p1 by simp
    show ?thesis
    proof (cases "fcvInnerSets i nodes l1 []")
      case None
      with Some p1 show ?thesis by simp
    next
      case (Some p2)
      obtain l2 rsI where p2: "p2 = (l2, rsI)"
        by (cases p2)
      have "set rsI \<subseteq> (\<lambda>q. findClosestVBlocking q nodes) ` set i"
        using fcvInnerSets_subset [of i nodes l1 "[]" l2 rsI] Some p2 by simp
      then have rsI: "set w \<subseteq> nodes" if "w \<in> set rsI" for w
        using that SCPQuorumSet.IH by auto
      have take1: "set (take n r1) \<subseteq> nodes" for n
        using r1 set_take_subset [of n r1] by blast
      have take2: "set (concat (take n rsI)) \<subseteq> nodes" for n
        using rsI set_take_subset [of n rsI] by auto
      from \<open>fcvValidators v nodes (leftTillBlockInit v i t) [] = Some p1\<close> p1 Some p2
      show ?thesis
        using r1 take1 take2 by (simp add: Let_def useInternals_eq)
    qed
  qed
qed

text \<open>
  Claim C3 as stated takes the result itself to be v-blocking. The search counts every
  validator outside the candidate set as blocked already, so the result only has to make
  up the rest: for \<open>{threshold = 2, validators = [2, 3, 4]}\<close> and the candidates \<open>{2, 3}\<close>
  it returns \<open>[2]\<close>, which blocks together with the missing node 4 but not alone.
\<close>

theorem findClosestVBlocking_counterexample:
  "wellFormed (SCPQuorumSet 2 [2, 3, 4 :: nat] []) \<and>
   findClosestVBlocking (SCPQuorumSet 2 [2, 3, 4 :: nat] []) {2, 3} = [2] \<and>
   [2 :: nat] \<noteq> [] \<and>
   \<not> isVBlocking (SCPQuorumSet 2 [2, 3, 4 :: nat] []) [2]"
proof -
  have init: "leftTillBlockInit [2, 3, 4 :: nat] [] 2 = 2"
    by (simp add: leftTillBlockInit_def)
  have int: "toInt 2 = 2"
    by (simp add: toInt_def)
  show ?thesis
    by (simp add: wellFormed_def isVBlocking_def init int)
qed

text \<open>
  Claim C3, amended. For every well-formed quorum set in which every set has fewer than
  \<open>2 ^ 31\<close> direct entries, and every candidate set \<open>C\<close>: every member of the result of
  \<open>findClosestVBlocking\<close> belongs to \<open>C\<close>, and the result together with the validators
  of the tree that are not in \<open>C\<close> is v-blocking. When all validators of the tree are
  candidates, the result itself is v-blocking.
\<close>

theorem findClosestVBlocking_sound:
  assumes "wellFormed Q" and "entriesFitInt Q"
  shows "set (findClosestVBlocking Q C) \<subseteq> C \<and>
     isVBlocking Q (findClosestVBlocking Q C @ filter (\<lambda>x. x \<notin> C) (allValidators Q)) \<and>
     (set (allValidators Q) \<subseteq> C \<longrightarrow> isVBlocking Q (findClosestVBlocking Q C))"
proof -
  let ?R = "findClosestVBlocking Q C"
  let ?S = "?R @ filter (\<lambda>x. x \<notin> C) (allValidators Q)"
  have range: "thresholdsInRange Q"
    using assms(1) by (simp add: wellFormed_def)
  have "blocked Q ?S"
    using range assms(2) by (rule findClosestVBlocking_blocks) auto
  then have blocks: "isVBlocking Q ?S"
    unfolding isVBlocking_def using range assms(2) by (simp add: isVBlockingInternal_blocked)
  have "filter (\<lambda>x. x \<notin> C) (allValidators Q) = []" if "set (allValidators Q) \<subseteq> C"
    using that by (auto simp: filter_empty_conv)
  with blocks have "isVBlocking Q ?R" if "set (allValidators Q) \<subseteq> C"
    using that by simp
  with blocks findClosestVBlocking_subset [of Q C] show ?thesis
    by blast
qed

theorem findClosestVBlocking_sound_witness:
  "wellFormed (SCPQuorumSet 2 [2, 3, 4 :: nat] []) \<and>
   entriesFitInt (SCPQuorumSet 2 [2, 3, 4 :: nat] []) \<and>
   findClosestVBlocking (SCPQuorumSet 2 [2, 3, 4 :: nat] []) {2, 3} = [2] \<and>
   isVBlocking (SCPQuorumSet 2 [2, 3, 4 :: nat] []) [2, 4] \<and>
   set (allValidators (SCPQuorumSet 2 [2, 3, 4 :: nat] [])) \<subseteq> {2, 3, 4} \<and>
   findClosestVBlocking (SCPQuorumSet 2 [2, 3, 4 :: nat] []) {2, 3, 4} = [2, 3] \<and>
   isVBlocking (SCPQuorumSet 2 [2, 3, 4 :: nat] []) [2, 3]"
proof -
  let ?Q = "SCPQuorumSet 2 [2, 3, 4 :: nat] []"
  have wf: "wellFormed ?Q"
    by (simp add: wellFormed_def)
  have fit: "entriesFitInt ?Q"
    by simp
  have init: "leftTillBlockInit [2, 3, 4 :: nat] [] 2 = 2"
    by (simp add: leftTillBlockInit_def)
  have r1: "findClosestVBlocking ?Q {2, 3} = [2]"
    by (simp add: init)
  have r2: "findClosestVBlocking ?Q {2, 3, 4} = [2, 3]"
    by (simp add: init)
  show ?thesis
    using wf fit r1 r2 findClosestVBlocking_sound [OF wf fit, of "{2, 3}"]
      findClosestVBlocking_sound [OF wf fit, of "{2, 3, 4}"]
    by simp
qed

end
